theory Spec2Isabelle
  imports Main "HOL-Library.Multiset" "HOL-Library.Sublist"
begin

section \<open>The environment: disk, directory walk, library functions\<close>

text \<open>
  The program reads files, walks directories and calls three digest libraries and the
  JSON codec. None of these is code of the repository, so they are parameters of the
  model, collected in one record.

  A file on disk has a content and, possibly, a byte offset that cannot be read (a read
  covering that offset raises \<open>OSError\<close>). \<open>disk e p = None\<close> means that
  \<open>open(p, 'rb')\<close> raises (missing path, directory, permission denied).
\<close>

type_synonym bytes = "char list"

record disk_file =
  content :: bytes
  fail_at :: "nat option"

datatype error = ValueError string | JSONDecodeError

record env =
  disk :: "string \<Rightarrow> disk_file option"
  walk :: "string \<Rightarrow> (string \<times> int \<times> int) list"
  xxh64_hex :: "bytes \<Rightarrow> string"
  md5_hex :: "bytes \<Rightarrow> string"
  sha1_hex :: "bytes \<Rightarrow> string"
  json_dumps :: "string list \<Rightarrow> string"
  json_loads :: "string \<Rightarrow> string list option"

text \<open>\<open>f.read(n)\<close> at position \<open>pos\<close> of a file opened in binary mode.\<close>

definition f_read :: "disk_file \<Rightarrow> nat \<Rightarrow> nat \<Rightarrow> bytes option" where
  "f_read f pos n =
     (case fail_at f of
        None \<Rightarrow> Some (take n (drop pos (content f)))
      | Some k \<Rightarrow>
          if pos \<le> k \<and> k < pos + n \<and> k < length (content f) then None
          else Some (take n (drop pos (content f))))"

definition readable :: "disk_file \<Rightarrow> bool" where
  "readable f = (case fail_at f of None \<Rightarrow> True | Some k \<Rightarrow> length (content f) \<le> k)"

text \<open>
  A streaming hash object (\<open>xxhash.xxh64()\<close>, \<open>hashlib.md5()\<close>, \<open>hashlib.sha1()\<close>).
  The libraries document \<open>h.update(a); h.update(b)\<close> as \<open>h.update(a + b)\<close>, so the
  state of the object is the bytes it was fed, and \<open>hexdigest\<close> applies the digest
  function of the algorithm to them.
\<close>

datatype hasher = Hasher bytes

fun update :: "hasher \<Rightarrow> bytes \<Rightarrow> hasher" where
  "update (Hasher b) chunk = Hasher (b @ chunk)"

fun hexdigest :: "(bytes \<Rightarrow> string) \<Rightarrow> hasher \<Rightarrow> string" where
  "hexdigest dg (Hasher b) = dg b"

section \<open>hasher.py\<close>

definition CHUNK_SIZE :: nat where
  "CHUNK_SIZE = 1024 * 1024"

text \<open>
  The loop \<open>while chunk := f.read(CHUNK_SIZE): h.update(chunk)\<close>. The result is
  \<open>None\<close> when a read raises, and the hash object after the last chunk otherwise.
\<close>

function read_chunks :: "disk_file \<Rightarrow> nat \<Rightarrow> hasher \<Rightarrow> hasher option" where
  "read_chunks f pos h =
     (case f_read f pos CHUNK_SIZE of
        None \<Rightarrow> None
      | Some chunk \<Rightarrow>
          if chunk = [] then Some h
          else read_chunks f (pos + length chunk) (update h chunk))"
  by pat_completeness auto
termination
proof (relation "measure (\<lambda>(f, pos, h). length (content f) - pos)")
  show "wf (measure (\<lambda>(f, pos, h). length (content f) - pos))"
    by simp
next
  fix f :: disk_file and pos :: nat and h :: hasher and chunk :: bytes
  assume rd: "f_read f pos CHUNK_SIZE = Some chunk" and ne: "chunk \<noteq> []"
  from rd have "chunk = take CHUNK_SIZE (drop pos (content f))"
    by (auto simp: f_read_def split: option.splits if_splits)
  with ne have "pos < length (content f)" and "0 < length chunk"
    by auto
  then have "length (content f) - (pos + length chunk) < length (content f) - pos"
    by arith
  then show "((f, pos + length chunk, update h chunk), (f, pos, h))
      \<in> measure (\<lambda>(f, pos, h). length (content f) - pos)"
    by simp
qed

declare read_chunks.simps [simp del]

text \<open>
  The three functions of hasher.py. Every exception inside \<open>try\<close> is caught by
  \<open>except Exception\<close> and becomes the result \<open>None\<close>.
\<close>

definition hash_file :: "(bytes \<Rightarrow> string) \<Rightarrow> env \<Rightarrow> string \<Rightarrow> string option" where
  "hash_file dg e filepath =
     (case disk e filepath of
        None \<Rightarrow> None
      | Some f \<Rightarrow>
          (case read_chunks f 0 (Hasher []) of
             None \<Rightarrow> None
           | Some h \<Rightarrow> Some (hexdigest dg h)))"

definition compute_xxhash :: "env \<Rightarrow> string \<Rightarrow> string option" where
  "compute_xxhash e filepath = hash_file (xxh64_hex e) e filepath"

definition compute_md5 :: "env \<Rightarrow> string \<Rightarrow> string option" where
  "compute_md5 e filepath = hash_file (md5_hex e) e filepath"


section \<open>workspace.py\<close>

text \<open>
  A row of the table \<open>files\<close>. The columns \<open>id\<close> and \<open>created_at\<close> are
  assigned by SQLite and read by no code of the repository; they are left out. Rows are
  kept in rowid order, the order in which \<open>SELECT * FROM files\<close> returns them.
\<close>

record file_rec =
  path :: string
  fsize :: int
  modified :: int
  xxhash :: "string option"
  md5 :: "string option"
  sha1 :: "string option"
  status :: string

text \<open>The single row of \<open>workspace_metadata\<close>, without its timestamps.\<close>

record metadata =
  workspace_name :: string
  total_files :: nat
  total_size :: int
  duplicate_groups :: nat

record store =
  db_path :: string
  files :: "file_rec list"
  workspace_config :: "string \<rightharpoonup> string"
  workspace_metadata :: "metadata option"
  workspace_directories :: "string list"

text \<open>A new database file after \<open>_init_db\<close>: every table exists and is empty.\<close>

definition create_workspace :: "string \<Rightarrow> store" where
  "create_workspace workspace_path =
     \<lparr>db_path = workspace_path, files = [], workspace_config = Map.empty,
      workspace_metadata = None, workspace_directories = []\<rparr>"

text \<open>
  \<open>INSERT OR REPLACE INTO files\<close>: \<open>path\<close> is \<open>UNIQUE\<close>, so a row with the
  same path is deleted and the new row is inserted with a fresh, largest rowid. The
  parameters \<open>md5\<close>, \<open>sha1\<close> and \<open>status\<close> default to \<open>None\<close>, \<open>None\<close>
  and \<open>"present"\<close> in the source; a call that omits them passes these values here.
  The values are taken to be ones that sqlite3 can bind (a text without lone surrogates,
  an integer of at most 64 bits) and the database to be writable, so that the statement
  does not raise; a call that raises writes nothing.
\<close>

definition add_file ::
  "store \<Rightarrow> string \<Rightarrow> int \<Rightarrow> int \<Rightarrow> string option \<Rightarrow> string option \<Rightarrow> string option \<Rightarrow> string
    \<Rightarrow> store" where
  "add_file ws p sz mt xx m5 s1 st =
     ws\<lparr>files := filter (\<lambda>r. path r \<noteq> p) (files ws) @
        [\<lparr>path = p, fsize = sz, modified = mt, xxhash = xx, md5 = m5, sha1 = s1,
          status = st\<rparr>]\<rparr>"

definition get_files :: "store \<Rightarrow> file_rec list" where
  "get_files ws = files ws"

text \<open>
  save_directories: delete every row of \<open>workspace_directories\<close>, insert the new
  ones one by one, then write the JSON text of the list under the key
  \<open>directories\<close> of \<open>workspace_config\<close>.
\<close>

definition save_directories :: "env \<Rightarrow> store \<Rightarrow> string list \<Rightarrow> store" where
  "save_directories e ws dirs =
     (let ws1 = ws\<lparr>workspace_directories := []\<rparr>;
          ws2 = fold (\<lambda>directory w.
                  w\<lparr>workspace_directories := workspace_directories w @ [directory]\<rparr>) dirs ws1
      in ws2\<lparr>workspace_config := (workspace_config ws2)(''directories'' \<mapsto> json_dumps e dirs)\<rparr>)"

text \<open>
  load_directories: the rows of \<open>workspace_directories\<close> when there are any;
  otherwise the legacy value in \<open>workspace_config\<close>, decoded (\<open>json.loads\<close>
  raises on a text that is not JSON); otherwise the empty list.
\<close>

definition load_directories :: "env \<Rightarrow> store \<Rightarrow> error + string list" where
  "load_directories e ws =
     (let rows = workspace_directories ws in
      if rows \<noteq> [] then Inr rows
      else (case workspace_config ws ''directories'' of
              Some v \<Rightarrow> (case json_loads e v of None \<Rightarrow> Inl JSONDecodeError | Some ds \<Rightarrow> Inr ds)
            | None \<Rightarrow> Inr []))"

text \<open>\<open>os.path.basename\<close> on a POSIX path: what follows the last slash.\<close>

definition basename :: "string \<Rightarrow> string" where
  "basename p = rev (takeWhile (\<lambda>c. c \<noteq> CHR ''/'') (rev p))"

definition update_workspace_metadata :: "store \<Rightarrow> string option \<Rightarrow> store" where
  "update_workspace_metadata ws name =
     (let n = length (files ws);
          total = sum_list (map fsize (files ws));
          hashes = remdups (concat (map (\<lambda>r. case xxhash r of None \<Rightarrow> [] | Some h \<Rightarrow> [h]) (files ws)));
          groups = filter (\<lambda>h. 1 < length (filter (\<lambda>r. xxhash r = Some h) (files ws))) hashes;
          nm = (case name of None \<Rightarrow> basename (db_path ws)
                | Some s \<Rightarrow> if s = [] then basename (db_path ws) else s)
      in ws\<lparr>workspace_metadata :=
             Some \<lparr>workspace_name = nm, total_files = n, total_size = total,
                   duplicate_groups = length groups\<rparr>\<rparr>)"

definition clear_files :: "store \<Rightarrow> store" where
  "clear_files ws = ws\<lparr>files := []\<rparr>"

section \<open>deduper.py\<close>

text \<open>Python's truth value of a nullable text: \<open>None\<close> and \<open>''\<close> are false.\<close>

definition truthy :: "string option \<Rightarrow> bool" where
  "truthy v = (v \<noteq> None \<and> v \<noteq> Some [])"

text \<open>
  \<open>d[k].append(v)\<close> on a \<open>defaultdict(list)\<close>. A dict keeps its keys in insertion
  order, so it is an association list; \<open>d.values()\<close> is \<open>map snd\<close>.
\<close>

fun dd_append :: "('k \<times> 'v list) list \<Rightarrow> 'k \<Rightarrow> 'v \<Rightarrow> ('k \<times> 'v list) list" where
  "dd_append [] k v = [(k, [v])]"
| "dd_append ((k', vs) # d) k v =
     (if k' = k then (k', vs @ [v]) # d else (k', vs) # dd_append d k v)"

text \<open>
  The loop of find_potential_duplicates over the fetched rows. A row without a
  fingerprint is hashed and written back with all of its columns.
\<close>

fun hash_map_loop ::
  "env \<Rightarrow> file_rec list \<Rightarrow> store \<Rightarrow> (string option \<times> file_rec list) list
    \<Rightarrow> store \<times> (string option \<times> file_rec list) list" where
  "hash_map_loop e [] ws hash_map = (ws, hash_map)"
| "hash_map_loop e (file # rest) ws hash_map =
     (let (file1, ws1) =
            (if \<not> truthy (xxhash file) then
               (let file' = file\<lparr>xxhash := compute_xxhash e (path file)\<rparr>
                in (file', add_file ws (path file') (fsize file') (modified file')
                             (xxhash file') (md5 file') (sha1 file') (status file')))
             else (file, ws))
      in hash_map_loop e rest ws1 (dd_append hash_map (xxhash file1) file1))"

definition find_potential_duplicates :: "env \<Rightarrow> store \<Rightarrow> store \<times> file_rec list list" where
  "find_potential_duplicates e ws =
     (let (ws', hash_map) = hash_map_loop e (get_files ws) ws []
      in (ws', filter (\<lambda>grp. 1 < length grp) (map snd hash_map)))"

text \<open>
  confirm_duplicates mutates the dicts of its argument in place (it fills
  \<open>file['md5']\<close>), so the model returns the groups as they are after the call, next
  to the store and the confirmed groups. A dict is modelled by its value: hashing a path
  gives the same result every time within one call, so a dict that occurs twice in the
  argument is filled with the same md5 at both places. The inner loop over one group:
\<close>

fun md5_map_loop ::
  "env \<Rightarrow> file_rec list \<Rightarrow> store \<Rightarrow> file_rec list \<Rightarrow> (string option \<times> file_rec list) list
    \<Rightarrow> store \<times> file_rec list \<times> (string option \<times> file_rec list) list" where
  "md5_map_loop e [] ws seen md5_map = (ws, seen, md5_map)"
| "md5_map_loop e (file # rest) ws seen md5_map =
     (let (file1, ws1) =
            (if \<not> truthy (md5 file) then
               (let file' = file\<lparr>md5 := compute_md5 e (path file)\<rparr>
                in (file', add_file ws (path file') (fsize file') (modified file')
                             (xxhash file') (md5 file') (sha1 file') (status file')))
             else (file, ws))
      in md5_map_loop e rest ws1 (seen @ [file1]) (dd_append md5_map (md5 file1) file1))"

text \<open>The loop \<open>for md5_group in md5_map.values()\<close>.\<close>

fun append_confirmed :: "file_rec list list \<Rightarrow> file_rec list list \<Rightarrow> file_rec list list" where
  "append_confirmed [] confirmed = confirmed"
| "append_confirmed (md5_group # rest) confirmed =
     (if 1 < length md5_group then append_confirmed rest (confirmed @ [md5_group])
      else append_confirmed rest confirmed)"

fun confirm_loop ::
  "env \<Rightarrow> file_rec list list \<Rightarrow> store \<Rightarrow> file_rec list list \<Rightarrow> file_rec list list
    \<Rightarrow> store \<times> file_rec list list \<times> file_rec list list" where
  "confirm_loop e [] ws groups' confirmed = (ws, groups', confirmed)"
| "confirm_loop e (grp # rest) ws groups' confirmed =
     (let (ws1, grp', md5_map) = md5_map_loop e grp ws [] []
      in confirm_loop e rest ws1 (groups' @ [grp'])
           (append_confirmed (map snd md5_map) confirmed))"

definition confirm_duplicates ::
  "env \<Rightarrow> store \<Rightarrow> file_rec list list \<Rightarrow> store \<times> file_rec list list \<times> file_rec list list" where
  "confirm_duplicates e ws potential_groups = confirm_loop e potential_groups ws [] []"

section \<open>parallel_processor.py\<close>

text \<open>
  \<open>as_completed\<close> yields the submitted futures in the order in which they finish,
  which the scheduler decides. A schedule is a list of choices: each one picks, modulo
  the number of futures still running, the one that finishes next. Every order of
  completion is the result of some schedule.
\<close>

fun as_completed :: "nat list \<Rightarrow> 'a list \<Rightarrow> 'a list" where
  "as_completed [] xs = xs"
| "as_completed (c # cs) xs =
     (if xs = [] then []
      else (let i = c mod length xs
            in xs ! i # as_completed cs (take i xs @ drop (Suc i) xs)))"

text \<open>What a call of the hash function in a worker gives to \<open>future.result()\<close>.\<close>

datatype 'a outcome = Raised | Returned 'a

text \<open>
  The loop over the completed futures of one pool: a result that is \<open>None\<close> or empty,
  or an exception, adds nothing.
\<close>

fun collect_results ::
  "(string \<Rightarrow> string option outcome) \<Rightarrow> string list \<Rightarrow> (string \<times> string) list
    \<Rightarrow> (string \<times> string) list" where
  "collect_results hash_func [] results = results"
| "collect_results hash_func (filepath # rest) results =
     (case hash_func filepath of
        Raised \<Rightarrow> collect_results hash_func rest results
      | Returned hash_result \<Rightarrow>
          (case hash_result of
             None \<Rightarrow> collect_results hash_func rest results
           | Some h \<Rightarrow>
               if h \<noteq> [] then collect_results hash_func rest (results @ [(filepath, h)])
               else collect_results hash_func rest results))"

definition large_file_threshold :: int where
  "large_file_threshold = 50 * 1024 * 1024"

definition process_files_parallel ::
  "nat list \<times> nat list \<Rightarrow> (string \<times> int \<times> int) list \<Rightarrow> (string \<Rightarrow> string option outcome)
    \<Rightarrow> (string \<times> string) list" where
  "process_files_parallel sched all_files hash_func =
     (let large_files = filter (\<lambda>(f, s, m). large_file_threshold \<le> s) all_files;
          small_files = filter (\<lambda>(f, s, m). s < large_file_threshold) all_files;
          results = [];
          results1 =
            (if large_files \<noteq> [] then
               collect_results hash_func (as_completed (fst sched) (map fst large_files)) results
             else results);
          results2 =
            (if small_files \<noteq> [] then
               collect_results hash_func (as_completed (snd sched) (map fst small_files)) results1
             else results1)
      in results2)"


section \<open>scanner.py\<close>

text \<open>
  scan_directories appends, root after root, what the walk of the root finds:
  \<open>walk e d\<close> is the list of \<open>(path, st_size, int(st_mtime))\<close> of the files under
  \<open>d\<close> whose \<open>os.stat\<close> succeeds, in the order of \<open>os.walk\<close>.
\<close>

definition scan_directories :: "env \<Rightarrow> string list \<Rightarrow> (string \<times> int \<times> int) list" where
  "scan_directories e dirs = fold (\<lambda>directory fs. fs @ walk e directory) dirs []"

section \<open>engine.py\<close>

record engine =
  workspace :: store
  directories :: "string list"

text \<open>The dict \<open>{f[0]: (f[1], f[2]) for f in files}\<close>: a later entry replaces an earlier one.\<close>

definition file_dict_of :: "(string \<times> int \<times> int) list \<Rightarrow> (string \<rightharpoonup> int \<times> int)" where
  "file_dict_of all_files = fold (\<lambda>(f, s, m) d. d(f \<mapsto> (s, m))) all_files Map.empty"

text \<open>The loop that stores the results of hashing.\<close>

fun store_results ::
  "(string \<rightharpoonup> int \<times> int) \<Rightarrow> (string \<times> string) list \<Rightarrow> store \<Rightarrow> store" where
  "store_results file_dict [] ws = ws"
| "store_results file_dict ((filepath, xx) # rest) ws =
     (case file_dict filepath of
        None \<Rightarrow> store_results file_dict rest ws
      | Some (sz, mt) \<Rightarrow>
          store_results file_dict rest
            (add_file ws filepath sz mt (Some xx) None None ''present''))"

text \<open>
  scan_and_hash returns the error it raises, if any, and the engine after the call.
  The progress callback only formats messages and is left out.
\<close>

definition scan_and_hash ::
  "env \<Rightarrow> nat list \<times> nat list \<Rightarrow> engine \<Rightarrow> (error + unit) \<times> engine" where
  "scan_and_hash e sched eng =
     (if directories eng = [] then (Inl (ValueError ''No directories to scan''), eng)
      else
        (let all_files = scan_directories e (directories eng);
             hash_results =
               process_files_parallel sched all_files (\<lambda>p. Returned (compute_xxhash e p));
             file_dict = file_dict_of all_files
         in (Inr (), eng\<lparr>workspace := store_results file_dict hash_results (workspace eng)\<rparr>)))"

definition find_duplicates :: "env \<Rightarrow> engine \<Rightarrow> file_rec list list \<times> engine" where
  "find_duplicates e eng =
     (let (ws1, potential_groups) = find_potential_duplicates e (workspace eng);
          (ws2, groups', confirmed_duplicates) = confirm_duplicates e ws1 potential_groups
      in (confirmed_duplicates, eng\<lparr>workspace := ws2\<rparr>))"

section \<open>gui/scan_thread.py\<close>

text \<open>
  _filter_unhashed_files. \<open>thread_conn\<close> is the thread's own connection to the
  workspace database, or \<open>None\<close>. \<open>fetchone\<close> gives the first row of the query.
\<close>

fun filter_loop ::
  "store \<Rightarrow> (string \<times> int \<times> int) list \<Rightarrow> (string \<times> int \<times> int) list
    \<Rightarrow> (string \<times> int \<times> int) list" where
  "filter_loop db [] files_to_hash = files_to_hash"
| "filter_loop db ((filepath, sz, mt) # rest) files_to_hash =
     (case find (\<lambda>r. path r = filepath \<and> fsize r = sz \<and> xxhash r \<noteq> None) (files db) of
        None \<Rightarrow> filter_loop db rest (files_to_hash @ [(filepath, sz, mt)])
      | Some row \<Rightarrow>
          if modified row \<noteq> mt then filter_loop db rest (files_to_hash @ [(filepath, sz, mt)])
          else filter_loop db rest files_to_hash)"

definition filter_unhashed_files ::
  "store option \<Rightarrow> (string \<times> int \<times> int) list \<Rightarrow> (string \<times> int \<times> int) list" where
  "filter_unhashed_files thread_conn all_files =
     (case thread_conn of
        None \<Rightarrow> all_files
      | Some db \<Rightarrow> filter_loop db all_files [])"

section \<open>Operations on a workspace, as data\<close>

text \<open>
  Every operation of the repository that writes to the database, with its arguments, so
  that a property can be stated for any sequence of them. The environment is an argument
  of each operation that reads it: the disk may change between two operations.
\<close>

datatype ws_op =
    Op_add_file string int int "string option" "string option" "string option" string
  | Op_clear_files
  | Op_save_directories env "string list"
  | Op_update_workspace_metadata "string option"
  | Op_scan_and_hash env "nat list \<times> nat list" "string list"
  | Op_find_potential_duplicates env
  | Op_confirm_duplicates env "file_rec list list"

fun apply_op :: "ws_op \<Rightarrow> store \<Rightarrow> store" where
  "apply_op (Op_add_file p sz mt xx m5 s1 st) ws = add_file ws p sz mt xx m5 s1 st"
| "apply_op Op_clear_files ws = clear_files ws"
| "apply_op (Op_save_directories e dirs) ws = save_directories e ws dirs"
| "apply_op (Op_update_workspace_metadata name) ws = update_workspace_metadata ws name"
| "apply_op (Op_scan_and_hash e sched dirs) ws =
     workspace (snd (scan_and_hash e sched \<lparr>workspace = ws, directories = dirs\<rparr>))"
| "apply_op (Op_find_potential_duplicates e) ws = fst (find_potential_duplicates e ws)"
| "apply_op (Op_confirm_duplicates e potential_groups) ws =
     fst (confirm_duplicates e ws potential_groups)"

section \<open>Notions used to state the properties\<close>

text \<open>A dict as it is after the lazy hashing of the deduper has visited it.\<close>

definition xxhash_filled :: "env \<Rightarrow> file_rec \<Rightarrow> file_rec" where
  "xxhash_filled e file =
     (if truthy (xxhash file) then file else file\<lparr>xxhash := compute_xxhash e (path file)\<rparr>)"

definition md5_filled :: "env \<Rightarrow> file_rec \<Rightarrow> file_rec" where
  "md5_filled e file =
     (if truthy (md5 file) then file else file\<lparr>md5 := compute_md5 e (path file)\<rparr>)"

text \<open>
  The association list \<open>d\<close> is the grouping of the list \<open>ys\<close> by \<open>key\<close>: one entry
  for each key that occurs, holding the elements with that key in their order.
\<close>

definition dd_groups :: "('v \<Rightarrow> 'k) \<Rightarrow> 'v list \<Rightarrow> ('k \<times> 'v list) list \<Rightarrow> bool" where
  "dd_groups key ys d =
     (distinct (map fst d) \<and>
      (\<forall>k. map_of d k =
         (if k \<in> key ` set ys then Some (filter (\<lambda>x. key x = k) ys) else None)))"

text \<open>
  The paths that a scan of the roots \<open>dirs\<close> discovers, and those among them whose
  fingerprint can be computed.
\<close>

definition discovered_paths :: "env \<Rightarrow> string list \<Rightarrow> string set" where
  "discovered_paths e dirs = set (map fst (scan_directories e dirs))"

definition hashed_paths :: "env \<Rightarrow> string list \<Rightarrow> string set" where
  "hashed_paths e dirs =
     set (filter (\<lambda>p. truthy (compute_xxhash e p)) (map fst (scan_directories e dirs)))"


text \<open>The row that scan_and_hash writes for a path it has hashed.\<close>

definition scanned_row :: "env \<Rightarrow> (string \<rightharpoonup> int \<times> int) \<Rightarrow> string \<Rightarrow> file_rec" where
  "scanned_row e file_dict p =
     \<lparr>path = p, fsize = fst (the (file_dict p)), modified = snd (the (file_dict p)),
      xxhash = compute_xxhash e p, md5 = None, sha1 = None, status = ''present''\<rparr>"

section \<open>A small directory, for examples\<close>

text \<open>
  A directory \<open>/A\<close> with \<open>f1 = "foo"\<close>, \<open>f2 = "foo"\<close>, \<open>f3 = "bar"\<close> and
  \<open>f4 = "fab"\<close>. The digests are stand-ins: the fingerprint looks at the first byte
  only, so that \<open>f4\<close> collides with \<open>f1\<close> and \<open>f2\<close>; the others are injective.
\<close>

definition demo_disk :: "string \<Rightarrow> disk_file option" where
  "demo_disk p =
     (if p = ''/A/f1'' then Some \<lparr>content = ''foo'', fail_at = None\<rparr>
      else if p = ''/A/f2'' then Some \<lparr>content = ''foo'', fail_at = None\<rparr>
      else if p = ''/A/f3'' then Some \<lparr>content = ''bar'', fail_at = None\<rparr>
      else if p = ''/A/f4'' then Some \<lparr>content = ''fab'', fail_at = None\<rparr>
      else None)"

definition demo_walk :: "string \<Rightarrow> (string \<times> int \<times> int) list" where
  "demo_walk d =
     (if d = ''/A'' then [(''/A/f1'', 3, 100), (''/A/f2'', 3, 100), (''/A/f3'', 3, 100)]
      else [])"

definition demo_xxh64 :: "bytes \<Rightarrow> string" where
  "demo_xxh64 b = ''x:'' @ take 1 b"

definition demo_md5 :: "bytes \<Rightarrow> string" where
  "demo_md5 b = ''m:'' @ b"

definition demo_sha1 :: "bytes \<Rightarrow> string" where
  "demo_sha1 b = ''s:'' @ b"

definition demo_dumps :: "string list \<Rightarrow> string" where
  "demo_dumps ds = concat (map (\<lambda>d. d @ '';'') ds)"

definition demo_loads :: "string \<Rightarrow> string list option" where
  "demo_loads s = (if s = ''/A;'' then Some [''/A''] else None)"

definition demo_env :: env where
  "demo_env =
     \<lparr>disk = demo_disk, walk = demo_walk, xxh64_hex = demo_xxh64, md5_hex = demo_md5,
      sha1_hex = demo_sha1, json_dumps = demo_dumps, json_loads = demo_loads\<rparr>"


definition demo_row :: "string \<Rightarrow> string option \<Rightarrow> string option \<Rightarrow> file_rec" where
  "demo_row p xx m5 =
     \<lparr>path = p, fsize = 3, modified = 100, xxhash = xx, md5 = m5, sha1 = None,
      status = ''present''\<rparr>"

definition demo_store :: "file_rec list \<Rightarrow> store" where
  "demo_store rows = (create_workspace ''/w/demo.dedupe'')\<lparr>files := rows\<rparr>"

definition demo_engine :: "file_rec list \<Rightarrow> string list \<Rightarrow> engine" where
  "demo_engine rows dirs = \<lparr>workspace = demo_store rows, directories = dirs\<rparr>"

definition demo_colliding :: "file_rec list" where
  "demo_colliding =
     [demo_row ''/A/f1'' (Some ''x:f'') None, demo_row ''/A/f2'' (Some ''x:f'') None,
      demo_row ''/A/f4'' (Some ''x:f'') None]"

section \<open>Properties of hasher.py\<close>

lemma CHUNK_SIZE_pos: "0 < CHUNK_SIZE"
  by (simp add: CHUNK_SIZE_def)

lemma take_drop_length: "take n xs @ drop (length (take n xs)) xs = xs"
  by (cases "n \<le> length xs") (simp_all add: min_def)

lemma read_chunks_closed:
  "(\<And>k. fail_at f = Some k \<Longrightarrow> pos \<le> k) \<Longrightarrow>
   read_chunks f pos (Hasher b) =
     (if readable f then Some (Hasher (b @ drop pos (content f))) else None)"
proof (induction f pos "Hasher b" arbitrary: b rule: read_chunks.induct)
  case (1 f pos)
  show ?case
  proof (cases "f_read f pos CHUNK_SIZE")
    case None
    then have "\<not> readable f"
      by (auto simp: f_read_def readable_def split: option.splits if_splits)
    with None show ?thesis
      by (simp add: read_chunks.simps [of f pos])
  next
    case (Some chunk)
    then have chunk: "chunk = take CHUNK_SIZE (drop pos (content f))"
      by (auto simp: f_read_def split: option.splits if_splits)
    show ?thesis
    proof (cases "chunk = []")
      case True
      with chunk CHUNK_SIZE_pos have past: "length (content f) \<le> pos"
        by (cases "drop pos (content f)") (auto simp: take_Cons')
      with "1.prems" have "readable f"
        by (auto simp: readable_def split: option.splits dest: order_trans)
      with Some True past show ?thesis
        by (simp add: read_chunks.simps [of f pos])
    next
      case False
      have next_ok: "pos + length chunk \<le> k" if k: "fail_at f = Some k" for k
      proof -
        from "1.prems" [OF k] have le: "pos \<le> k" .
        with Some k have "\<not> (k < pos + CHUNK_SIZE \<and> k < length (content f))"
          by (auto simp: f_read_def split: if_splits)
        moreover have "length chunk = min CHUNK_SIZE (length (content f) - pos)"
          using chunk by simp
        ultimately show ?thesis
          using le by arith
      qed
      have "drop pos (content f) = chunk @ drop (pos + length chunk) (content f)"
        using chunk take_drop_length [of CHUNK_SIZE "drop pos (content f)"]
        by (simp add: add.commute)
      moreover have "read_chunks f (pos + length chunk) (Hasher (b @ chunk)) =
          (if readable f then Some (Hasher ((b @ chunk) @ drop (pos + length chunk) (content f)))
           else None)"
        using "1.hyps" [OF Some False _ next_ok, of "b @ chunk"] by simp
      ultimately show ?thesis
        using Some False by (simp add: read_chunks.simps [of f pos])
    qed
  qed
qed

lemma hash_file_closed:
  "hash_file dg e filepath =
     (case disk e filepath of
        None \<Rightarrow> None
      | Some f \<Rightarrow> if readable f then Some (dg (content f)) else None)"
  by (simp add: hash_file_def read_chunks_closed split: option.splits)


lemma demo_compute_xxhash:
  "compute_xxhash demo_env p =
     (case demo_disk p of None \<Rightarrow> None | Some f \<Rightarrow> Some (''x:'' @ take 1 (content f)))"
  by (simp add: compute_xxhash_def hash_file_closed demo_env_def demo_xxh64_def demo_disk_def
      readable_def)

section \<open>Properties of deduper.py\<close>

lemma map_fst_dd_append:
  "map fst (dd_append d k v) = (if k \<in> set (map fst d) then map fst d else map fst d @ [k])"
  by (induction d k v rule: dd_append.induct) auto

lemma map_of_dd_append:
  "map_of (dd_append d k v) =
     (map_of d)(k \<mapsto> (case map_of d k of None \<Rightarrow> [] | Some vs \<Rightarrow> vs) @ [v])"
  by (induction d k v rule: dd_append.induct) (auto simp: fun_eq_iff)

lemma dd_groups_step:
  assumes "dd_groups key ys d"
  shows "dd_groups key (ys @ [x]) (dd_append d (key x) x)"
proof -
  from assms have dist: "distinct (map fst d)"
    and look: "\<And>k. map_of d k = (if k \<in> key ` set ys then Some (filter (\<lambda>x. key x = k) ys) else None)"
    by (auto simp: dd_groups_def)
  have "distinct (map fst (dd_append d (key x) x))"
    using dist by (simp add: map_fst_dd_append)
  moreover have "map_of (dd_append d (key x) x) k =
      (if k \<in> key ` set (ys @ [x]) then Some (filter (\<lambda>x. key x = k) (ys @ [x])) else None)" for k
  proof (cases "k = key x")
    case True
    have "filter (\<lambda>y. key y = key x) ys = []" if "key x \<notin> key ` set ys"
      using that by (auto simp: filter_empty_conv intro: rev_image_eqI)
    then show ?thesis
      using True by (auto simp: map_of_dd_append look)
  next
    case False
    then show ?thesis
      by (auto simp: map_of_dd_append look)
  qed
  ultimately show ?thesis
    by (simp add: dd_groups_def)
qed

lemma dd_groups_fold:
  "dd_groups key ys d \<Longrightarrow>
   dd_groups key (ys @ xs) (fold (\<lambda>x d. dd_append d (key x) x) xs d)"
proof (induction xs arbitrary: ys d)
  case Nil
  then show ?case by simp
next
  case (Cons x xs)
  from Cons.IH [OF dd_groups_step [OF Cons.prems, of x]] show ?case
    by simp
qed

lemma dd_groups_empty: "dd_groups key [] []"
  by (simp add: dd_groups_def)

lemma dd_groups_values:
  assumes "dd_groups key ys d"
  shows "set (map snd d) = (\<lambda>k. filter (\<lambda>x. key x = k) ys) ` key ` set ys"
proof -
  from assms have dist: "distinct (map fst d)"
    and look: "\<And>k. map_of d k = (if k \<in> key ` set ys then Some (filter (\<lambda>x. key x = k) ys) else None)"
    by (auto simp: dd_groups_def)
  have "(k, vs) \<in> set d \<longleftrightarrow> k \<in> key ` set ys \<and> vs = filter (\<lambda>x. key x = k) ys" for k vs
    using map_of_eq_Some_iff [OF dist, of k vs] look [of k] by (auto split: if_splits)
  then have "set d = (\<lambda>k. (k, filter (\<lambda>x. key x = k) ys)) ` key ` set ys"
    by (auto simp del: image_image)
  then show ?thesis
    by (simp add: image_image)
qed

lemma md5_map_loop_snd:
  "snd (md5_map_loop e g ws seen m) =
     (seen @ map (md5_filled e) g,
      fold (\<lambda>x d. dd_append d (md5 x) x) (map (md5_filled e) g) m)"
  by (induction g arbitrary: ws seen m) (simp_all add: md5_filled_def Let_def)

lemma append_confirmed_eq:
  "append_confirmed gs confirmed = confirmed @ filter (\<lambda>g. 1 < length g) gs"
  by (induction gs arbitrary: confirmed) simp_all

lemma confirm_loop_snd:
  "snd (confirm_loop e gs ws gs' c) =
     (gs' @ map (map (md5_filled e)) gs,
      c @ concat (map (\<lambda>g. filter (\<lambda>s. 1 < length s)
             (map snd (fold (\<lambda>x d. dd_append d (md5 x) x) (map (md5_filled e) g) []))) gs))"
proof (induction gs arbitrary: ws gs' c)
  case Nil
  then show ?case by simp
next
  case (Cons g gs)
  obtain ws1 g' m where loop: "md5_map_loop e g ws [] [] = (ws1, g', m)"
    by (cases "md5_map_loop e g ws [] []") auto
  with md5_map_loop_snd [of e g ws "[]" "[]"]
  have g': "g' = map (md5_filled e) g"
    and m: "m = fold (\<lambda>x d. dd_append d (md5 x) x) (map (md5_filled e) g) []"
    by simp_all
  show ?case
    by (simp add: loop Cons.IH append_confirmed_eq g' m)
qed

lemma md5_groups_iff:
  "c \<in> set (filter (\<lambda>s. 1 < length s) (map snd (fold (\<lambda>x d. dd_append d (md5 x) x) g []))) \<longleftrightarrow>
   1 < length c \<and> (\<exists>k. c = filter (\<lambda>f. md5 f = k) g)"
proof -
  have "dd_groups md5 g (fold (\<lambda>x d. dd_append d (md5 x) x) g [])"
    using dd_groups_fold [OF dd_groups_empty, of md5 g] by simp
  from dd_groups_values [OF this]
  have vals: "set (map snd (fold (\<lambda>x d. dd_append d (md5 x) x) g [])) =
      (\<lambda>k. filter (\<lambda>x. md5 x = k) g) ` md5 ` set g" .
  show ?thesis
  proof
    assume "c \<in> set (filter (\<lambda>s. 1 < length s) (map snd (fold (\<lambda>x d. dd_append d (md5 x) x) g [])))"
    then show "1 < length c \<and> (\<exists>k. c = filter (\<lambda>f. md5 f = k) g)"
      unfolding set_filter vals by auto
  next
    assume r: "1 < length c \<and> (\<exists>k. c = filter (\<lambda>f. md5 f = k) g)"
    then obtain k where c: "c = filter (\<lambda>f. md5 f = k) g" and len: "1 < length c"
      by blast
    from len obtain x where "x \<in> set c"
      by (cases c) auto
    with c have "k \<in> md5 ` set g"
      by auto
    then have "c \<in> (\<lambda>k. filter (\<lambda>x. md5 x = k) g) ` md5 ` set g"
      unfolding c by (rule imageI)
    with len show "c \<in> set (filter (\<lambda>s. 1 < length s) (map snd (fold (\<lambda>x d. dd_append d (md5 x) x) g [])))"
      unfolding set_filter vals by simp
  qed
qed

lemma in_set_concat_map: "x \<in> set (concat (map f xs)) \<longleftrightarrow> (\<exists>y\<in>set xs. x \<in> set (f y))"
  by auto

lemma filter_le_one:
  assumes "\<forall>j<length g. j \<noteq> i \<longrightarrow> \<not> P (g ! j)"
  shows "length (filter P g) \<le> 1"
proof (cases "i < length g")
  case True
  have "filter P (take i g) = []"
    using assms True by (auto simp: filter_empty_conv in_set_conv_nth)
  moreover have "filter P (drop (Suc i) g) = []"
    using assms True by (auto simp: filter_empty_conv in_set_conv_nth)
  moreover have "g = take i g @ g ! i # drop (Suc i) g"
    using True by (rule id_take_nth_drop)
  ultimately have "filter P g = filter P [g ! i]"
    by (metis append_Nil append_Nil2 filter.simps(2) filter_append)
  then show ?thesis
    by simp
next
  case False
  with assms have "filter P g = []"
    by (auto simp: filter_empty_conv in_set_conv_nth)
  then show ?thesis by simp
qed

text \<open>
  C1. confirm_duplicates partitions every potential group by md5 and returns exactly the
  parts with more than one member. With \<open>groups'\<close> the potential groups as they are
  after the call (md5 filled in where it was missing): a list is a confirmed group if and
  only if it has more than one member and is the part of some potential group with one
  md5 value; so every confirmed group has at least two members, its members share one
  md5, and it is a sub-list of a potential group, no longer than it; and a member whose
  md5 differs from that of every other member of each potential group that holds it is
  in no confirmed group.
\<close>

theorem confirm_duplicates_partition:
  assumes "snd (confirm_duplicates e ws potential_groups) = (groups', confirmed)"
  shows "groups' = map (map (md5_filled e)) potential_groups \<and>
    (\<forall>c. c \<in> set confirmed \<longleftrightarrow>
       1 < length c \<and> (\<exists>g\<in>set groups'. \<exists>k. c = filter (\<lambda>f. md5 f = k) g)) \<and>
    (\<forall>c\<in>set confirmed.
       2 \<le> length c \<and> (\<forall>x\<in>set c. \<forall>y\<in>set c. md5 x = md5 y) \<and>
       (\<exists>g\<in>set groups'. subseq c g \<and> set c \<subseteq> set g \<and> length c \<le> length g)) \<and>
    (\<forall>x. (\<forall>g\<in>set groups'. \<forall>i<length g. \<forall>j<length g.
             g ! i = x \<and> j \<noteq> i \<longrightarrow> md5 (g ! j) \<noteq> md5 x) \<longrightarrow>
         (\<forall>c\<in>set confirmed. x \<notin> set c))"
proof -
  from assms confirm_loop_snd [of e potential_groups ws "[]" "[]"]
  have groups': "groups' = map (map (md5_filled e)) potential_groups"
    by (simp add: confirm_duplicates_def)
  from assms confirm_loop_snd [of e potential_groups ws "[]" "[]"]
  have "confirmed = concat (map (\<lambda>g. filter (\<lambda>s. 1 < length s)
             (map snd (fold (\<lambda>x d. dd_append d (md5 x) x) (map (md5_filled e) g) []))) potential_groups)"
    by (simp add: confirm_duplicates_def)
  then have confirmed: "confirmed = concat (map (\<lambda>g. filter (\<lambda>s. 1 < length s)
             (map snd (fold (\<lambda>x d. dd_append d (md5 x) x) g []))) groups')"
    by (simp add: groups' comp_def)
  have exact: "c \<in> set confirmed \<longleftrightarrow>
      1 < length c \<and> (\<exists>g\<in>set groups'. \<exists>k. c = filter (\<lambda>f. md5 f = k) g)" for c
  proof -
    have "c \<in> set confirmed \<longleftrightarrow>
        (\<exists>g\<in>set groups'. c \<in> set (filter (\<lambda>s. 1 < length s)
             (map snd (fold (\<lambda>x d. dd_append d (md5 x) x) g []))))"
      unfolding confirmed by (rule in_set_concat_map)
    also have "\<dots> \<longleftrightarrow> (\<exists>g\<in>set groups'. 1 < length c \<and> (\<exists>k. c = filter (\<lambda>f. md5 f = k) g))"
      by (simp only: md5_groups_iff)
    finally show ?thesis
      by blast
  qed
  have sub: "2 \<le> length c \<and> (\<forall>x\<in>set c. \<forall>y\<in>set c. md5 x = md5 y) \<and>
       (\<exists>g\<in>set groups'. subseq c g \<and> set c \<subseteq> set g \<and> length c \<le> length g)"
    if "c \<in> set confirmed" for c
  proof -
    from that exact obtain g k where len: "1 < length c" and g: "g \<in> set groups'"
      and c: "c = filter (\<lambda>f. md5 f = k) g"
      by blast
    have "subseq c g \<and> set c \<subseteq> set g \<and> length c \<le> length g"
      unfolding c by auto
    with g have "\<exists>g\<in>set groups'. subseq c g \<and> set c \<subseteq> set g \<and> length c \<le> length g"
      by blast
    moreover have "\<forall>x\<in>set c. \<forall>y\<in>set c. md5 x = md5 y"
      unfolding c by simp
    moreover have "2 \<le> length c"
      using len by simp
    ultimately show ?thesis
      by blast
  qed
  have lone: "x \<notin> set c"
    if x: "\<forall>g\<in>set groups'. \<forall>i<length g. \<forall>j<length g.
             g ! i = x \<and> j \<noteq> i \<longrightarrow> md5 (g ! j) \<noteq> md5 x"
      and cc: "c \<in> set confirmed" for x c
  proof
    assume xc: "x \<in> set c"
    from cc exact obtain g k where len: "1 < length c" and g: "g \<in> set groups'"
      and c: "c = filter (\<lambda>f. md5 f = k) g"
      by blast
    from xc c have k: "md5 x = k" and "x \<in> set g" by simp_all
    then obtain i where i: "i < length g" "g ! i = x"
      by (auto simp: in_set_conv_nth)
    from bspec [OF x g] i have "\<forall>j<length g. j \<noteq> i \<longrightarrow> md5 (g ! j) \<noteq> md5 x"
      by simp
    then have "\<forall>j<length g. j \<noteq> i \<longrightarrow> \<not> md5 (g ! j) = k"
      unfolding k .
    from filter_le_one [OF this] have "length c \<le> 1"
      unfolding c .
    with len show False
      by simp
  qed
  show ?thesis
  proof (intro conjI allI ballI impI)
    show "groups' = map (map (md5_filled e)) potential_groups"
      by (fact groups')
  next
    fix c
    show "c \<in> set confirmed \<longleftrightarrow>
       1 < length c \<and> (\<exists>g\<in>set groups'. \<exists>k. c = filter (\<lambda>f. md5 f = k) g)"
      by (fact exact)
  next
    fix c assume "c \<in> set confirmed"
    from sub [OF this] show "2 \<le> length c" by simp
  next
    fix c x y assume "c \<in> set confirmed" "x \<in> set c" "y \<in> set c"
    with sub [of c] show "md5 x = md5 y" by blast
  next
    fix c assume "c \<in> set confirmed"
    from sub [OF this]
    show "\<exists>g\<in>set groups'. subseq c g \<and> set c \<subseteq> set g \<and> length c \<le> length g"
      by simp
  next
    fix x c
    assume "\<forall>g\<in>set groups'. \<forall>i<length g. \<forall>j<length g.
             g ! i = x \<and> j \<noteq> i \<longrightarrow> md5 (g ! j) \<noteq> md5 x"
      and "c \<in> set confirmed"
    then show "x \<notin> set c"
      by (rule lone)
  qed
qed

lemma demo_compute_md5:
  "compute_md5 demo_env p = (case demo_disk p of None \<Rightarrow> None | Some f \<Rightarrow> Some (''m:'' @ content f))"
  by (simp add: compute_md5_def hash_file_closed demo_env_def demo_md5_def demo_disk_def readable_def)

theorem confirm_duplicates_partition_witness:
  "snd (confirm_duplicates demo_env (demo_store []) [demo_colliding]) =
     ([[demo_row ''/A/f1'' (Some ''x:f'') (Some ''m:foo''),
        demo_row ''/A/f2'' (Some ''x:f'') (Some ''m:foo''),
        demo_row ''/A/f4'' (Some ''x:f'') (Some ''m:fab'')]],
      [[demo_row ''/A/f1'' (Some ''x:f'') (Some ''m:foo''),
        demo_row ''/A/f2'' (Some ''x:f'') (Some ''m:foo'')]]) \<and>
   [[demo_row ''/A/f1'' (Some ''x:f'') (Some ''m:foo''),
     demo_row ''/A/f2'' (Some ''x:f'') (Some ''m:foo''),
     demo_row ''/A/f4'' (Some ''x:f'') (Some ''m:fab'')]] =
     map (map (md5_filled demo_env)) [demo_colliding]"
proof -
  have run: "snd (confirm_duplicates demo_env (demo_store []) [demo_colliding]) =
     ([[demo_row ''/A/f1'' (Some ''x:f'') (Some ''m:foo''),
        demo_row ''/A/f2'' (Some ''x:f'') (Some ''m:foo''),
        demo_row ''/A/f4'' (Some ''x:f'') (Some ''m:fab'')]],
      [[demo_row ''/A/f1'' (Some ''x:f'') (Some ''m:foo''),
        demo_row ''/A/f2'' (Some ''x:f'') (Some ''m:foo'')]])"
    by (simp add: confirm_duplicates_def demo_colliding_def demo_row_def truthy_def
        demo_compute_md5 demo_disk_def)
  from confirm_duplicates_partition [OF run] have "[[demo_row ''/A/f1'' (Some ''x:f'') (Some ''m:foo''),
     demo_row ''/A/f2'' (Some ''x:f'') (Some ''m:foo''),
     demo_row ''/A/f4'' (Some ''x:f'') (Some ''m:fab'')]] =
     map (map (md5_filled demo_env)) [demo_colliding]"
    by (rule conjunct1)
  with run show ?thesis
    by (rule conjI)
qed

section \<open>Properties of parallel_processor.py\<close>

lemma mset_as_completed: "mset (as_completed cs xs) = mset xs"
proof (induction cs arbitrary: xs)
  case Nil
  then show ?case by simp
next
  case (Cons c cs)
  show ?case
  proof (cases "xs = []")
    case True
    then show ?thesis by simp
  next
    case False
    define i where "i = c mod length xs"
    from False have i: "i < length xs"
      by (simp add: i_def)
    have "mset xs = mset (take i xs @ xs ! i # drop (Suc i) xs)"
      using id_take_nth_drop [OF i] by simp
    then show ?thesis
      using False Cons.IH [of "take i xs @ drop (Suc i) xs"]
      by (simp add: i_def [symmetric] Let_def)
  qed
qed

lemma set_as_completed: "set (as_completed cs xs) = set xs"
  using mset_as_completed [of cs xs] by (metis set_mset_mset)

lemma set_collect_results:
  "set (collect_results hash_func ps results) =
     set results \<union> {(p, h). p \<in> set ps \<and> hash_func p = Returned (Some h) \<and> h \<noteq> []}"
  by (induction ps arbitrary: results) (auto split: outcome.splits option.splits)

lemma set_pool_results:
  "set (if xs \<noteq> [] then collect_results hash_func (as_completed cs (map fst xs)) results
        else results) =
     set results \<union> {(p, h). p \<in> fst ` set xs \<and> hash_func p = Returned (Some h) \<and> h \<noteq> []}"
  by (cases "xs = []") (simp_all add: set_collect_results set_as_completed)

lemma set_process_files_parallel:
  "set (process_files_parallel sched all_files hash_func) =
     {(p, h). p \<in> fst ` set all_files \<and> hash_func p = Returned (Some h) \<and> h \<noteq> []}"
proof -
  let ?large = "filter (\<lambda>(f, s, m). large_file_threshold \<le> s) all_files"
  let ?small = "filter (\<lambda>(f, s, m). s < large_file_threshold) all_files"
  have split: "fst ` set all_files = fst ` set ?large \<union> fst ` set ?small"
    by force
  have "set (process_files_parallel sched all_files hash_func) =
      {(p, h). p \<in> fst ` set ?large \<and> hash_func p = Returned (Some h) \<and> h \<noteq> []} \<union>
      {(p, h). p \<in> fst ` set ?small \<and> hash_func p = Returned (Some h) \<and> h \<noteq> []}"
    unfolding process_files_parallel_def Let_def set_pool_results by simp
  also have "\<dots> = {(p, h). p \<in> fst ` set all_files \<and> hash_func p = Returned (Some h) \<and> h \<noteq> []}"
    unfolding split by blast
  finally show ?thesis .
qed











section \<open>Properties of workspace.py and engine.py\<close>

lemma files_add_file:
  "files (add_file ws p sz mt xx m5 s1 st) =
     filter (\<lambda>r. path r \<noteq> p) (files ws) @
       [\<lparr>path = p, fsize = sz, modified = mt, xxhash = xx, md5 = m5, sha1 = s1, status = st\<rparr>]"
  by (simp add: add_file_def)

lemma add_file_frame:
  "db_path (add_file ws p sz mt xx m5 s1 st) = db_path ws"
  "workspace_config (add_file ws p sz mt xx m5 s1 st) = workspace_config ws"
  "workspace_metadata (add_file ws p sz mt xx m5 s1 st) = workspace_metadata ws"
  "workspace_directories (add_file ws p sz mt xx m5 s1 st) = workspace_directories ws"
  by (simp_all add: add_file_def)

lemma distinct_add_file:
  "distinct (map path (files ws)) \<Longrightarrow>
   distinct (map path (files (add_file ws p sz mt xx m5 s1 st)))"
  by (auto simp: files_add_file distinct_map_filter)

lemma scan_directories_concat: "scan_directories e dirs = concat (map (walk e) dirs)"
proof -
  have "fold (\<lambda>directory fs. fs @ walk e directory) dirs acc = acc @ concat (map (walk e) dirs)"
    for acc
    by (induction dirs arbitrary: acc) simp_all
  then show ?thesis
    by (simp add: scan_directories_def)
qed

lemma dom_file_dict_of: "dom (file_dict_of all_files) = fst ` set all_files"
proof -
  have "dom (fold (\<lambda>(f, s, m) d. d(f \<mapsto> (s, m))) all_files d0) = dom d0 \<union> fst ` set all_files"
    for d0 :: "string \<rightharpoonup> int \<times> int"
    by (induction all_files arbitrary: d0) (auto split: prod.splits)
  then show ?thesis
    by (simp add: file_dict_of_def)
qed

lemma store_results_frame:
  "db_path (store_results fd rs ws) = db_path ws"
  "workspace_config (store_results fd rs ws) = workspace_config ws"
  "workspace_metadata (store_results fd rs ws) = workspace_metadata ws"
  "workspace_directories (store_results fd rs ws) = workspace_directories ws"
  by (induction fd rs ws rule: store_results.induct; simp add: add_file_frame split: option.splits)+

lemma distinct_store_results:
  "distinct (map path (files ws)) \<Longrightarrow> distinct (map path (files (store_results fd rs ws)))"
  by (induction fd rs ws rule: store_results.induct)
     (auto simp: distinct_add_file split: option.splits)

lemma set_store_results:
  assumes "\<forall>(p, x)\<in>set rs. p \<in> dom fd \<and> compute_xxhash e p = Some x"
  shows "set (files (store_results fd rs ws)) =
     {r \<in> set (files ws). path r \<notin> fst ` set rs} \<union> scanned_row e fd ` fst ` set rs"
  using assms
proof (induction fd rs ws rule: store_results.induct)
  case (1 fd ws)
  then show ?case by simp
next
  case (2 fd p x rest ws)
  from "2.prems" obtain sz mt where fd: "fd p = Some (sz, mt)" and x: "compute_xxhash e p = Some x"
    by auto
  have row: "\<lparr>path = p, fsize = sz, modified = mt, xxhash = Some x, md5 = None, sha1 = None,
      status = ''present''\<rparr> = scanned_row e fd p"
    by (simp add: scanned_row_def fd x)
  have rest: "\<forall>(p, x)\<in>set rest. p \<in> dom fd \<and> compute_xxhash e p = Some x"
    using "2.prems" by simp
  have path_row: "path (scanned_row e fd q) = q" for q
    by (simp add: scanned_row_def)
  have "set (files (store_results fd ((p, x) # rest) ws)) =
      {r \<in> set (files (add_file ws p sz mt (Some x) None None ''present'')).
         path r \<notin> fst ` set rest} \<union> scanned_row e fd ` fst ` set rest"
    using "2.IH"(2) [OF fd refl rest] by (simp add: fd)
  also have "\<dots> = {r \<in> set (files ws). path r \<notin> fst ` set ((p, x) # rest)} \<union>
      scanned_row e fd ` fst ` set ((p, x) # rest)"
  proof -
    have in_rest: "scanned_row e fd p \<in> scanned_row e fd ` fst ` set rest" if "(p, b) \<in> set rest" for b
      using that by (metis fst_conv image_eqI)
    show ?thesis
      unfolding files_add_file row using path_row in_rest by auto
  qed
  finally show ?case .
qed

lemma set_hash_results:
  "set (process_files_parallel sched (scan_directories e dirs) (\<lambda>p. Returned (compute_xxhash e p))) =
     {(p, x). p \<in> hashed_paths e dirs \<and> compute_xxhash e p = Some x}"
  by (auto simp: set_process_files_parallel hashed_paths_def truthy_def)

lemma fst_set_hash_results:
  "fst ` set (process_files_parallel sched (scan_directories e dirs) (\<lambda>p. Returned (compute_xxhash e p))) =
     hashed_paths e dirs"
  unfolding set_hash_results by (force simp: hashed_paths_def truthy_def)

lemma hashed_subset_discovered: "hashed_paths e dirs \<subseteq> discovered_paths e dirs"
  by (auto simp: hashed_paths_def discovered_paths_def)

text \<open>What a successful scan_and_hash leaves in the table \<open>files\<close>.\<close>

lemma scan_and_hash_closed:
  assumes "directories eng \<noteq> []"
  shows "fst (scan_and_hash e sched eng) = Inr ()"
    and "directories (snd (scan_and_hash e sched eng)) = directories eng"
    and "set (files (workspace (snd (scan_and_hash e sched eng)))) =
      {r \<in> set (files (workspace eng)). path r \<notin> hashed_paths e (directories eng)} \<union>
      scanned_row e (file_dict_of (scan_directories e (directories eng))) `
        hashed_paths e (directories eng)"
    and "db_path (workspace (snd (scan_and_hash e sched eng))) = db_path (workspace eng)"
    and "workspace_config (workspace (snd (scan_and_hash e sched eng))) = workspace_config (workspace eng)"
    and "workspace_metadata (workspace (snd (scan_and_hash e sched eng))) = workspace_metadata (workspace eng)"
    and "workspace_directories (workspace (snd (scan_and_hash e sched eng))) =
      workspace_directories (workspace eng)"
proof -
  let ?files = "scan_directories e (directories eng)"
  let ?rs = "process_files_parallel sched ?files (\<lambda>p. Returned (compute_xxhash e p))"
  have run: "scan_and_hash e sched eng =
      (Inr (), eng\<lparr>workspace := store_results (file_dict_of ?files) ?rs (workspace eng)\<rparr>)"
    using assms by (simp add: scan_and_hash_def Let_def)
  have ok: "\<forall>(p, x)\<in>set ?rs. p \<in> dom (file_dict_of ?files) \<and> compute_xxhash e p = Some x"
    unfolding set_hash_results dom_file_dict_of
    using hashed_subset_discovered [of e "directories eng"]
    by (auto simp: discovered_paths_def)
  show "fst (scan_and_hash e sched eng) = Inr ()"
    and "directories (snd (scan_and_hash e sched eng)) = directories eng"
    and "db_path (workspace (snd (scan_and_hash e sched eng))) = db_path (workspace eng)"
    and "workspace_config (workspace (snd (scan_and_hash e sched eng))) = workspace_config (workspace eng)"
    and "workspace_metadata (workspace (snd (scan_and_hash e sched eng))) = workspace_metadata (workspace eng)"
    and "workspace_directories (workspace (snd (scan_and_hash e sched eng))) =
      workspace_directories (workspace eng)"
    by (simp_all add: run store_results_frame)
  show "set (files (workspace (snd (scan_and_hash e sched eng)))) =
      {r \<in> set (files (workspace eng)). path r \<notin> hashed_paths e (directories eng)} \<union>
      scanned_row e (file_dict_of (scan_directories e (directories eng))) `
        hashed_paths e (directories eng)"
    using set_store_results [OF ok, of "workspace eng"]
    by (simp add: run fst_set_hash_results)
qed

lemma scan_and_hash_error:
  "directories eng = [] \<Longrightarrow>
   scan_and_hash e sched eng = (Inl (ValueError ''No directories to scan''), eng)"
  by (simp add: scan_and_hash_def)

text \<open>
  C9. With no root configured, scan_and_hash raises \<open>ValueError("No directories to
  scan")\<close> (the InvalidState of the specification) before it scans, hashes or writes:
  the engine and its workspace are as before.
\<close>

theorem scan_and_hash_no_roots:
  "directories eng = [] \<Longrightarrow>
   scan_and_hash e sched eng = (Inl (ValueError ''No directories to scan''), eng)"
  by (rule scan_and_hash_error)

theorem scan_and_hash_no_roots_witness:
  "directories (demo_engine [demo_row ''/A/f1'' (Some ''x:f'') None] []) = [] \<and>
   scan_and_hash demo_env ([], []) (demo_engine [demo_row ''/A/f1'' (Some ''x:f'') None] []) =
     (Inl (ValueError ''No directories to scan''),
      demo_engine [demo_row ''/A/f1'' (Some ''x:f'') None] [])"
proof -
  have none: "directories (demo_engine [demo_row ''/A/f1'' (Some ''x:f'') None] []) = []"
    by (simp add: demo_engine_def)
  from none scan_and_hash_no_roots [OF none] show ?thesis
    by (rule conjI)
qed

lemma demo_scan:
  "scan_and_hash demo_env ([], []) (demo_engine [] [''/A'']) =
     (Inr (), demo_engine
        [demo_row ''/A/f1'' (Some ''x:f'') None, demo_row ''/A/f2'' (Some ''x:f'') None,
         demo_row ''/A/f3'' (Some ''x:b'') None] [''/A''])"
  by (simp add: scan_and_hash_def demo_engine_def demo_store_def create_workspace_def
      scan_directories_def demo_env_def [THEN arg_cong, of walk] demo_walk_def
      process_files_parallel_def large_file_threshold_def file_dict_of_def
      demo_compute_xxhash demo_disk_def add_file_def demo_row_def)

lemma store_results_files_only:
  "store_results fd rs ws = ws\<lparr>files := files (store_results fd rs ws)\<rparr>"
  by (rule store.equality) (simp_all add: store_results_frame)

lemma path_scanned_row: "path (scanned_row e fd q) = q"
  by (simp add: scanned_row_def)

text \<open>
  The table after the loop that stores the results, as a list: the old rows of the
  paths that were not hashed, in their order, then one new row for each hashed path, in
  the order of the last result of each path.
\<close>

lemma files_store_results:
  assumes "\<forall>(p, x)\<in>set rs. p \<in> dom fd \<and> compute_xxhash e p = Some x"
  shows "files (store_results fd rs ws) =
     filter (\<lambda>r. path r \<notin> fst ` set rs) (files ws) @
     map (scanned_row e fd) (remdups (map fst rs))"
  using assms
proof (induction fd rs ws rule: store_results.induct)
  case (1 fd ws)
  then show ?case by simp
next
  case (2 fd p x rest ws)
  from "2.prems" obtain sz mt where fd: "fd p = Some (sz, mt)" and x: "compute_xxhash e p = Some x"
    by auto
  have row: "\<lparr>path = p, fsize = sz, modified = mt, xxhash = Some x, md5 = None, sha1 = None,
      status = ''present''\<rparr> = scanned_row e fd p"
    by (simp add: scanned_row_def fd x)
  have rest: "\<forall>(p, x)\<in>set rest. p \<in> dom fd \<and> compute_xxhash e p = Some x"
    using "2.prems" by simp
  have both: "filter (\<lambda>r. path r \<notin> fst ` set rest) (filter (\<lambda>r. path r \<noteq> p) (files ws)) =
      filter (\<lambda>r. path r \<notin> fst ` set ((p, x) # rest)) (files ws)"
    unfolding filter_filter by (rule filter_cong) auto
  have "files (store_results fd ((p, x) # rest) ws) =
      filter (\<lambda>r. path r \<notin> fst ` set rest)
        (files (add_file ws p sz mt (Some x) None None ''present'')) @
      map (scanned_row e fd) (remdups (map fst rest))"
    using "2.IH"(2) [OF fd refl rest] by (simp add: fd)
  also have "\<dots> = filter (\<lambda>r. path r \<notin> fst ` set ((p, x) # rest)) (files ws) @
      map (scanned_row e fd) (remdups (map fst ((p, x) # rest)))"
  proof (cases "p \<in> fst ` set rest")
    case True
    then show ?thesis
      unfolding files_add_file row filter_append both
      by (simp add: path_scanned_row del: filter_filter)
  next
    case False
    then show ?thesis
      unfolding files_add_file row filter_append both
      by (simp add: path_scanned_row del: filter_filter)
  qed
  finally show ?case .
qed

lemma scan_and_hash_files:
  assumes "directories eng \<noteq> []"
  shows "scan_and_hash e sched eng =
      (Inr (), eng\<lparr>workspace := (workspace eng)\<lparr>files :=
         filter (\<lambda>r. path r \<notin> hashed_paths e (directories eng)) (files (workspace eng)) @
         map (scanned_row e (file_dict_of (scan_directories e (directories eng))))
           (remdups (map fst (process_files_parallel sched (scan_directories e (directories eng))
              (\<lambda>p. Returned (compute_xxhash e p)))))\<rparr>\<rparr>)"
proof -
  let ?files = "scan_directories e (directories eng)"
  let ?rs = "process_files_parallel sched ?files (\<lambda>p. Returned (compute_xxhash e p))"
  have run: "scan_and_hash e sched eng =
      (Inr (), eng\<lparr>workspace := store_results (file_dict_of ?files) ?rs (workspace eng)\<rparr>)"
    using assms by (simp add: scan_and_hash_def Let_def)
  have ok: "\<forall>(p, x)\<in>set ?rs. p \<in> dom (file_dict_of ?files) \<and> compute_xxhash e p = Some x"
    unfolding set_hash_results dom_file_dict_of
    using hashed_subset_discovered [of e "directories eng"]
    by (auto simp: discovered_paths_def)
  have rows: "files (store_results (file_dict_of ?files) ?rs (workspace eng)) =
      filter (\<lambda>r. path r \<notin> hashed_paths e (directories eng)) (files (workspace eng)) @
      map (scanned_row e (file_dict_of ?files)) (remdups (map fst ?rs))"
    using files_store_results [OF ok, of "workspace eng"] by (simp add: fst_set_hash_results)
  have "store_results (file_dict_of ?files) ?rs (workspace eng) =
      (workspace eng)\<lparr>files := files (store_results (file_dict_of ?files) ?rs (workspace eng))\<rparr>"
    by (rule store_results_files_only)
  then have "store_results (file_dict_of ?files) ?rs (workspace eng) =
      (workspace eng)\<lparr>files :=
        filter (\<lambda>r. path r \<notin> hashed_paths e (directories eng)) (files (workspace eng)) @
        map (scanned_row e (file_dict_of ?files)) (remdups (map fst ?rs))\<rparr>"
    unfolding rows .
  then show ?thesis
    by (simp only: run)
qed

lemma set_hashed_order:
  "set (remdups (map fst (process_files_parallel sched (scan_directories e dirs)
      (\<lambda>p. Returned (compute_xxhash e p))))) = hashed_paths e dirs"
  using fst_set_hash_results [of sched e dirs] by simp

lemma filter_unhashed_scanned_rows:
  "set ps \<subseteq> H \<Longrightarrow> filter (\<lambda>r. path r \<notin> H) (map (scanned_row e fd) ps) = []"
  by (auto simp: filter_empty_conv path_scanned_row)

lemma filter_path_scanned_rows:
  "distinct ps \<Longrightarrow> p \<in> set ps \<Longrightarrow>
   filter (\<lambda>r. path r = p) (map (scanned_row e fd) ps) = [scanned_row e fd p]"
proof (induction ps)
  case Nil
  then show ?case by simp
next
  case (Cons q ps)
  show ?case
  proof (cases "q = p")
    case True
    with Cons.prems have "p \<notin> set ps"
      by simp
    then have "filter (\<lambda>r. path r = p) (map (scanned_row e fd) ps) = []"
      by (auto simp: filter_empty_conv path_scanned_row)
    with True show ?thesis
      by (simp add: path_scanned_row)
  next
    case False
    with Cons show ?thesis
      by (simp add: path_scanned_row)
  qed
qed

text \<open>
  C4. A second scan_and_hash over the same roots and the same disk is a no-op on the
  stored state: run with the same order of completion it returns the engine unchanged,
  the table of records included; run with any other order of completion it leaves the
  same records, each as often as before (a row may have moved), and nothing else in the
  workspace differs.
\<close>

theorem scan_and_hash_idempotent:
  assumes "scan_and_hash e sched1 eng = (Inr (), eng1)"
  shows "scan_and_hash e sched1 eng1 = (Inr (), eng1) \<and>
     (\<exists>eng2. scan_and_hash e sched2 eng1 = (Inr (), eng2) \<and>
        mset (files (workspace eng2)) = mset (files (workspace eng1)) \<and>
        eng2\<lparr>workspace := (workspace eng2)\<lparr>files := files (workspace eng1)\<rparr>\<rparr> = eng1)"
proof -
  have dirs: "directories eng \<noteq> []"
    using assms by (auto simp: scan_and_hash_def split: if_splits)
  let ?H = "hashed_paths e (directories eng)"
  let ?row = "scanned_row e (file_dict_of (scan_directories e (directories eng)))"
  let ?order = "\<lambda>sched. remdups (map fst (process_files_parallel sched
      (scan_directories e (directories eng)) (\<lambda>p. Returned (compute_xxhash e p))))"
  let ?old = "filter (\<lambda>r. path r \<notin> ?H) (files (workspace eng))"
  have eng1: "eng1 = eng\<lparr>workspace := (workspace eng)\<lparr>files := ?old @ map ?row (?order sched1)\<rparr>\<rparr>"
    using assms scan_and_hash_files [OF dirs, of e sched1] by simp
  have dirs1: "directories eng1 = directories eng"
    by (simp add: eng1)
  then have dirs1': "directories eng1 \<noteq> []"
    using dirs by simp
  have files1: "files (workspace eng1) = ?old @ map ?row (?order sched1)"
    by (simp add: eng1)
  have kept: "filter (\<lambda>r. path r \<notin> ?H) (files (workspace eng1)) = ?old"
    unfolding files1 filter_append
    using filter_unhashed_scanned_rows [of "?order sched1" ?H e] set_hashed_order [of sched1 e]
    by simp
  have again: "scan_and_hash e sched eng1 =
      (Inr (), eng1\<lparr>workspace := (workspace eng1)\<lparr>files := ?old @ map ?row (?order sched)\<rparr>\<rparr>)"
    for sched
    using scan_and_hash_files [OF dirs1', of e sched] by (simp add: dirs1 kept)
  have same: "scan_and_hash e sched1 eng1 = (Inr (), eng1)"
    unfolding again by (simp add: eng1)
  have perm: "mset (?order sched2) = mset (?order sched1)"
    by (rule set_eq_iff_mset_remdups_eq [THEN iffD1]) (simp add: fst_set_hash_results)
  define eng2 where
    "eng2 = eng1\<lparr>workspace := (workspace eng1)\<lparr>files := ?old @ map ?row (?order sched2)\<rparr>\<rparr>"
  have run2: "scan_and_hash e sched2 eng1 = (Inr (), eng2)"
    unfolding eng2_def by (rule again)
  have "mset (?old @ map ?row (?order sched2)) = mset (?old @ map ?row (?order sched1))"
    using perm by simp
  then have rows2: "mset (files (workspace eng2)) = mset (files (workspace eng1))"
    by (simp add: files1 eng2_def)
  have rest2: "eng2\<lparr>workspace := (workspace eng2)\<lparr>files := files (workspace eng1)\<rparr>\<rparr> = eng1"
    by (simp add: eng2_def)
  from run2 rows2 rest2
  have "\<exists>eng2. scan_and_hash e sched2 eng1 = (Inr (), eng2) \<and>
        mset (files (workspace eng2)) = mset (files (workspace eng1)) \<and>
        eng2\<lparr>workspace := (workspace eng2)\<lparr>files := files (workspace eng1)\<rparr>\<rparr> = eng1"
    by (intro exI [of _ eng2] conjI)
  with same show ?thesis
    by (rule conjI)
qed

theorem scan_and_hash_idempotent_witness:
  "scan_and_hash demo_env ([], []) (demo_engine [] [''/A'']) =
     (Inr (), demo_engine
        [demo_row ''/A/f1'' (Some ''x:f'') None, demo_row ''/A/f2'' (Some ''x:f'') None,
         demo_row ''/A/f3'' (Some ''x:b'') None] [''/A'']) \<and>
   scan_and_hash demo_env ([], []) (demo_engine
        [demo_row ''/A/f1'' (Some ''x:f'') None, demo_row ''/A/f2'' (Some ''x:f'') None,
         demo_row ''/A/f3'' (Some ''x:b'') None] [''/A'']) =
     (Inr (), demo_engine
        [demo_row ''/A/f1'' (Some ''x:f'') None, demo_row ''/A/f2'' (Some ''x:f'') None,
         demo_row ''/A/f3'' (Some ''x:b'') None] [''/A'']) \<and>
   (\<exists>eng2. scan_and_hash demo_env ([], [2, 0]) (demo_engine
        [demo_row ''/A/f1'' (Some ''x:f'') None, demo_row ''/A/f2'' (Some ''x:f'') None,
         demo_row ''/A/f3'' (Some ''x:b'') None] [''/A'']) = (Inr (), eng2) \<and>
      mset (files (workspace eng2)) =
        mset [demo_row ''/A/f1'' (Some ''x:f'') None, demo_row ''/A/f2'' (Some ''x:f'') None,
              demo_row ''/A/f3'' (Some ''x:b'') None])"
proof -
  note inst = scan_and_hash_idempotent [OF demo_scan, of "([], [2, 0])"]
  from inst have same: "scan_and_hash demo_env ([], []) (demo_engine
        [demo_row ''/A/f1'' (Some ''x:f'') None, demo_row ''/A/f2'' (Some ''x:f'') None,
         demo_row ''/A/f3'' (Some ''x:b'') None] [''/A'']) =
     (Inr (), demo_engine
        [demo_row ''/A/f1'' (Some ''x:f'') None, demo_row ''/A/f2'' (Some ''x:f'') None,
         demo_row ''/A/f3'' (Some ''x:b'') None] [''/A''])"
    by (rule conjunct1)
  from inst obtain eng2 where "scan_and_hash demo_env ([], [2, 0]) (demo_engine
        [demo_row ''/A/f1'' (Some ''x:f'') None, demo_row ''/A/f2'' (Some ''x:f'') None,
         demo_row ''/A/f3'' (Some ''x:b'') None] [''/A'']) = (Inr (), eng2)"
    and "mset (files (workspace eng2)) = mset (files (workspace (demo_engine
        [demo_row ''/A/f1'' (Some ''x:f'') None, demo_row ''/A/f2'' (Some ''x:f'') None,
         demo_row ''/A/f3'' (Some ''x:b'') None] [''/A''])))"
    by (elim conjE exE)
  then have other: "\<exists>eng2. scan_and_hash demo_env ([], [2, 0]) (demo_engine
        [demo_row ''/A/f1'' (Some ''x:f'') None, demo_row ''/A/f2'' (Some ''x:f'') None,
         demo_row ''/A/f3'' (Some ''x:b'') None] [''/A'']) = (Inr (), eng2) \<and>
      mset (files (workspace eng2)) =
        mset [demo_row ''/A/f1'' (Some ''x:f'') None, demo_row ''/A/f2'' (Some ''x:f'') None,
              demo_row ''/A/f3'' (Some ''x:b'') None]"
    by (simp add: demo_engine_def demo_store_def)
  from demo_scan same other show ?thesis
    by (intro conjI)
qed

section \<open>One record per path, whole-row upsert\<close>

lemma files_save_directories: "files (save_directories e ws dirs) = files ws"
proof -
  have "files (fold (\<lambda>directory w.
      w\<lparr>workspace_directories := workspace_directories w @ [directory]\<rparr>) dirs w0) = files w0"
    for w0 :: store
    by (induction dirs arbitrary: w0) simp_all
  then show ?thesis
    by (simp add: save_directories_def Let_def)
qed

lemma files_update_workspace_metadata: "files (update_workspace_metadata ws name) = files ws"
  by (simp add: update_workspace_metadata_def Let_def)

lemma distinct_hash_map_loop:
  "distinct (map path (files ws)) \<Longrightarrow>
   distinct (map path (files (fst (hash_map_loop e fs ws hm))))"
  by (induction fs arbitrary: ws hm) (simp_all add: Let_def distinct_add_file)

lemma distinct_md5_map_loop:
  "distinct (map path (files ws)) \<Longrightarrow>
   distinct (map path (files (fst (md5_map_loop e fs ws seen m))))"
  by (induction fs arbitrary: ws seen m) (simp_all add: Let_def distinct_add_file)

lemma distinct_confirm_loop:
  "distinct (map path (files ws)) \<Longrightarrow>
   distinct (map path (files (fst (confirm_loop e gs ws gs' c))))"
proof (induction gs arbitrary: ws gs' c)
  case Nil
  then show ?case by simp
next
  case (Cons g gs)
  obtain ws1 g' m where loop: "md5_map_loop e g ws [] [] = (ws1, g', m)"
    by (cases "md5_map_loop e g ws [] []") auto
  from distinct_md5_map_loop [OF Cons.prems, of e g "[]" "[]"] loop
  have "distinct (map path (files ws1))"
    by simp
  from Cons.IH [OF this] show ?case
    by (simp add: loop)
qed

lemma distinct_scan_and_hash:
  "distinct (map path (files (workspace eng))) \<Longrightarrow>
   distinct (map path (files (workspace (snd (scan_and_hash e sched eng)))))"
  by (simp add: scan_and_hash_def Let_def distinct_store_results)

lemma fst_find_potential_duplicates:
  "fst (find_potential_duplicates e ws) = fst (hash_map_loop e (files ws) ws [])"
  by (simp add: find_potential_duplicates_def get_files_def split: prod.splits)

lemma distinct_apply_op:
  "distinct (map path (files ws)) \<Longrightarrow> distinct (map path (files (apply_op op ws)))"
proof (cases op)
  case (Op_add_file p sz mt xx m5 s1 st)
  assume "distinct (map path (files ws))"
  then show ?thesis
    unfolding Op_add_file by (simp add: distinct_add_file)
next
  case Op_clear_files
  then show ?thesis
    by (simp add: clear_files_def)
next
  case (Op_save_directories e dirs)
  assume "distinct (map path (files ws))"
  then show ?thesis
    unfolding Op_save_directories by (simp add: files_save_directories)
next
  case (Op_update_workspace_metadata name)
  assume "distinct (map path (files ws))"
  then show ?thesis
    unfolding Op_update_workspace_metadata by (simp add: files_update_workspace_metadata)
next
  case (Op_scan_and_hash e sched dirs)
  assume "distinct (map path (files ws))"
  then show ?thesis
    unfolding Op_scan_and_hash
    using distinct_scan_and_hash [of "\<lparr>workspace = ws, directories = dirs\<rparr>" e sched] by simp
next
  case (Op_find_potential_duplicates e)
  assume "distinct (map path (files ws))"
  then show ?thesis
    unfolding Op_find_potential_duplicates
    using distinct_hash_map_loop [of ws e "files ws" "[]"]
    by (simp add: fst_find_potential_duplicates)
next
  case (Op_confirm_duplicates e gs)
  assume "distinct (map path (files ws))"
  then show ?thesis
    unfolding Op_confirm_duplicates
    using distinct_confirm_loop [of ws e gs "[]" "[]"]
    by (simp add: confirm_duplicates_def)
qed

lemma distinct_fold_apply_op:
  "distinct (map path (files ws)) \<Longrightarrow> distinct (map path (files (fold apply_op ops ws)))"
  by (induction ops arbitrary: ws) (simp_all add: distinct_apply_op)

lemma find_add_file:
  "find (\<lambda>r. path r = p) (files (add_file ws p sz mt xx m5 s1 st)) =
     Some \<lparr>path = p, fsize = sz, modified = mt, xxhash = xx, md5 = m5, sha1 = s1, status = st\<rparr>"
proof -
  have "find (\<lambda>r. path r = p) (filter (\<lambda>r. path r \<noteq> p) rows @ [new]) =
      find (\<lambda>r. path r = p) [new]" for rows and new :: file_rec
    by (induction rows) simp_all
  then show ?thesis
    by (simp add: files_add_file)
qed

lemma filter_add_file_other:
  "q \<noteq> p \<Longrightarrow>
   filter (\<lambda>r. path r = q) (files (add_file ws p sz mt xx m5 s1 st)) =
     filter (\<lambda>r. path r = q) (files ws)"
proof -
  assume "q \<noteq> p"
  then have "filter (\<lambda>r. path r = q) (filter (\<lambda>r. path r \<noteq> p) (files ws)) =
      filter (\<lambda>r. path r = q) (files ws)"
    unfolding filter_filter by (intro filter_cong) auto
  with \<open>q \<noteq> p\<close> show ?thesis
    by (simp add: files_add_file del: filter_filter)
qed

lemma path_xxhash_filled: "path (xxhash_filled e f) = path f"
  by (simp add: xxhash_filled_def)

lemma set_hash_map_loop:
  "distinct (map path fs) \<Longrightarrow>
   set (files (fst (hash_map_loop e fs ws hm))) =
     {r \<in> set (files ws). path r \<notin> path ` {f \<in> set fs. \<not> truthy (xxhash f)}} \<union>
     xxhash_filled e ` {f \<in> set fs. \<not> truthy (xxhash f)}"
proof (induction fs arbitrary: ws hm)
  case Nil
  then show ?case by simp
next
  case (Cons f fs)
  from Cons.prems have dist: "distinct (map path fs)" and fresh: "path f \<notin> path ` set fs"
    by simp_all
  show ?case
  proof (cases "truthy (xxhash f)")
    case True
    then show ?thesis
      using Cons.IH [OF dist, of ws] by (auto simp: Let_def)
  next
    case False
    let ?f' = "f\<lparr>xxhash := compute_xxhash e (path f)\<rparr>"
    let ?ws1 = "add_file ws (path f) (fsize f) (modified f) (compute_xxhash e (path f))
        (md5 f) (sha1 f) (status f)"
    have f': "xxhash_filled e f = ?f'"
      using False by (simp add: xxhash_filled_def)
    have new: "\<lparr>path = path f, fsize = fsize f, modified = modified f,
        xxhash = compute_xxhash e (path f), md5 = md5 f, sha1 = sha1 f, status = status f\<rparr> = ?f'"
      by simp
    have step: "fst (hash_map_loop e (f # fs) ws hm) =
        fst (hash_map_loop e fs ?ws1 (dd_append hm (xxhash ?f') ?f'))"
      using False by (simp add: Let_def)
    have rows1: "set (files ?ws1) = {r \<in> set (files ws). path r \<noteq> path f} \<union> {?f'}"
      unfolding files_add_file new by auto
    define Fr where "Fr = {g \<in> set fs. \<not> truthy (xxhash g)}"
    have F: "{g \<in> set (f # fs). \<not> truthy (xxhash g)} = insert f Fr"
      using False by (auto simp: Fr_def)
    have pf: "path g \<noteq> path f" if "g \<in> Fr" for g
    proof
      assume eq: "path g = path f"
      from that have "g \<in> set fs"
        by (simp add: Fr_def)
      then have "path g \<in> path ` set fs"
        by (rule imageI)
      with fresh eq show False
        by simp
    qed
    have "set (files (fst (hash_map_loop e (f # fs) ws hm))) =
        {r \<in> set (files ?ws1). path r \<notin> path ` Fr} \<union> xxhash_filled e ` Fr"
      unfolding step Fr_def by (rule Cons.IH [OF dist])
    also have "\<dots> = {r \<in> set (files ws). path r \<notin> path ` insert f Fr} \<union>
        xxhash_filled e ` insert f Fr"
      unfolding rows1 f' [symmetric] using pf path_xxhash_filled [of e f] by auto
    finally show ?thesis
      unfolding F .
  qed
qed

lemma set_files_find_potential_duplicates:
  assumes "distinct (map path (files ws))"
  shows "set (files (fst (find_potential_duplicates e ws))) = xxhash_filled e ` set (files ws)"
proof -
  let ?F = "{f \<in> set (files ws). \<not> truthy (xxhash f)}"
  from assms have inj: "inj_on path (set (files ws))"
    by (simp add: distinct_map)
  have "fst (find_potential_duplicates e ws) = fst (hash_map_loop e (files ws) ws [])"
    by (rule fst_find_potential_duplicates)
  then have "set (files (fst (find_potential_duplicates e ws))) =
      {r \<in> set (files ws). path r \<notin> path ` ?F} \<union> xxhash_filled e ` ?F"
    using set_hash_map_loop [OF assms, of e ws "[]"] by simp
  moreover have "{r \<in> set (files ws). path r \<notin> path ` ?F} =
      {r \<in> set (files ws). truthy (xxhash r)}"
    using inj by (auto dest: inj_onD)
  moreover have "{r \<in> set (files ws). truthy (xxhash r)} =
      xxhash_filled e ` {r \<in> set (files ws). truthy (xxhash r)}"
    by (force simp: xxhash_filled_def)
  ultimately have "set (files (fst (find_potential_duplicates e ws))) =
      xxhash_filled e ` {r \<in> set (files ws). truthy (xxhash r)} \<union> xxhash_filled e ` ?F"
    by simp
  also have "\<dots> = xxhash_filled e ` set (files ws)"
    by blast
  finally show ?thesis .
qed

lemma scan_and_hash_resets:
  assumes "scan_and_hash e sched eng = (Inr (), eng')"
    and "r \<in> set (files (workspace eng'))"
    and "path r \<in> hashed_paths e (directories eng)"
  shows "md5 r = None \<and> sha1 r = None \<and> status r = ''present''"
proof -
  have dirs: "directories eng \<noteq> []"
    using assms(1) by (auto simp: scan_and_hash_def split: if_splits)
  have eng': "eng' = snd (scan_and_hash e sched eng)"
    using assms(1) by simp
  from assms(2) scan_and_hash_closed(3) [OF dirs, of e sched]
  have "r \<in> {r \<in> set (files (workspace eng)). path r \<notin> hashed_paths e (directories eng)} \<union>
      scanned_row e (file_dict_of (scan_directories e (directories eng))) `
        hashed_paths e (directories eng)"
    unfolding eng' by simp
  with assms(3) obtain q where "r = scanned_row e (file_dict_of (scan_directories e (directories eng))) q"
    by auto
  then show ?thesis
    by (simp add: scanned_row_def)
qed

lemma demo_find_duplicates:
  "find_duplicates demo_env (demo_engine
        [demo_row ''/A/f1'' (Some ''x:f'') None, demo_row ''/A/f2'' (Some ''x:f'') None,
         demo_row ''/A/f3'' (Some ''x:b'') None] [''/A'']) =
     ([[demo_row ''/A/f1'' (Some ''x:f'') (Some ''m:foo''),
        demo_row ''/A/f2'' (Some ''x:f'') (Some ''m:foo'')]],
      demo_engine
        [demo_row ''/A/f3'' (Some ''x:b'') None,
         demo_row ''/A/f1'' (Some ''x:f'') (Some ''m:foo''),
         demo_row ''/A/f2'' (Some ''x:f'') (Some ''m:foo'')] [''/A''])"
  by (simp add: find_duplicates_def find_potential_duplicates_def get_files_def
      confirm_duplicates_def demo_engine_def demo_store_def create_workspace_def
      demo_row_def truthy_def demo_compute_md5 demo_disk_def add_file_def Let_def)

lemma demo_rescan:
  "scan_and_hash demo_env ([], []) (demo_engine
        [demo_row ''/A/f3'' (Some ''x:b'') None,
         demo_row ''/A/f1'' (Some ''x:f'') (Some ''m:foo''),
         demo_row ''/A/f2'' (Some ''x:f'') (Some ''m:foo'')] [''/A'']) =
     (Inr (), demo_engine
        [demo_row ''/A/f1'' (Some ''x:f'') None, demo_row ''/A/f2'' (Some ''x:f'') None,
         demo_row ''/A/f3'' (Some ''x:b'') None] [''/A''])"
  by (simp add: scan_and_hash_def demo_engine_def demo_store_def create_workspace_def
      scan_directories_def demo_env_def [THEN arg_cong, of walk] demo_walk_def
      process_files_parallel_def large_file_threshold_def file_dict_of_def
      demo_compute_xxhash demo_disk_def add_file_def demo_row_def)

text \<open>
  C5, as stated, fails in its last part: after find_duplicates has stored the md5 of
  \<open>/A/f1\<close> and \<open>/A/f2\<close>, a scan_and_hash of the same directory writes their rows
  with md5 = NULL.
\<close>

theorem rescan_resets_md5:
  "find_duplicates demo_env (demo_engine
        [demo_row ''/A/f1'' (Some ''x:f'') None, demo_row ''/A/f2'' (Some ''x:f'') None,
         demo_row ''/A/f3'' (Some ''x:b'') None] [''/A'']) =
     ([[demo_row ''/A/f1'' (Some ''x:f'') (Some ''m:foo''),
        demo_row ''/A/f2'' (Some ''x:f'') (Some ''m:foo'')]],
      demo_engine
        [demo_row ''/A/f3'' (Some ''x:b'') None,
         demo_row ''/A/f1'' (Some ''x:f'') (Some ''m:foo''),
         demo_row ''/A/f2'' (Some ''x:f'') (Some ''m:foo'')] [''/A'']) \<and>
   scan_and_hash demo_env ([], []) (demo_engine
        [demo_row ''/A/f3'' (Some ''x:b'') None,
         demo_row ''/A/f1'' (Some ''x:f'') (Some ''m:foo''),
         demo_row ''/A/f2'' (Some ''x:f'') (Some ''m:foo'')] [''/A'']) =
     (Inr (), demo_engine
        [demo_row ''/A/f1'' (Some ''x:f'') None, demo_row ''/A/f2'' (Some ''x:f'') None,
         demo_row ''/A/f3'' (Some ''x:b'') None] [''/A'']) \<and>
   md5 (demo_row ''/A/f1'' (Some ''x:f'') None) \<noteq> md5 (demo_row ''/A/f1'' (Some ''x:f'') (Some ''m:foo''))"
  using demo_find_duplicates demo_rescan by (simp add: demo_row_def)

text \<open>
  C5, amended. After any sequence of operations on a new workspace no two records have
  the same path. add_file replaces the whole row: the record of the path is exactly the
  values passed, and the records of the other paths are as before. The lazy hashing of
  find_potential_duplicates passes every field of the record it read, so the stored
  records change in their fingerprint only; scan_and_hash passes the path, the size,
  the modification time and the fingerprint, so the record of every path it hashed has
  md5 and sha1 NULL and status "present".
\<close>

theorem one_record_per_path_whole_row_upsert:
  "distinct (map path (files (fold apply_op ops (create_workspace wp)))) \<and>
   find (\<lambda>r. path r = p) (files (add_file ws p sz mt xx m5 s1 st)) =
     Some \<lparr>path = p, fsize = sz, modified = mt, xxhash = xx, md5 = m5, sha1 = s1, status = st\<rparr> \<and>
   (\<forall>q. q \<noteq> p \<longrightarrow>
      filter (\<lambda>r. path r = q) (files (add_file ws p sz mt xx m5 s1 st)) =
        filter (\<lambda>r. path r = q) (files ws)) \<and>
   (distinct (map path (files ws)) \<longrightarrow>
      set (files (fst (find_potential_duplicates e ws))) = xxhash_filled e ` set (files ws)) \<and>
   (\<forall>eng'. scan_and_hash e sched eng = (Inr (), eng') \<longrightarrow>
      (\<forall>r\<in>set (files (workspace eng')).
         path r \<in> hashed_paths e (directories eng) \<longrightarrow>
           md5 r = None \<and> sha1 r = None \<and> status r = ''present''))"
proof (intro conjI allI impI ballI)
  show "distinct (map path (files (fold apply_op ops (create_workspace wp))))"
    by (rule distinct_fold_apply_op) (simp add: create_workspace_def)
next
  show "find (\<lambda>r. path r = p) (files (add_file ws p sz mt xx m5 s1 st)) =
     Some \<lparr>path = p, fsize = sz, modified = mt, xxhash = xx, md5 = m5, sha1 = s1, status = st\<rparr>"
    by (rule find_add_file)
next
  fix q assume "q \<noteq> p"
  then show "filter (\<lambda>r. path r = q) (files (add_file ws p sz mt xx m5 s1 st)) =
        filter (\<lambda>r. path r = q) (files ws)"
    by (rule filter_add_file_other)
next
  assume "distinct (map path (files ws))"
  then show "set (files (fst (find_potential_duplicates e ws))) = xxhash_filled e ` set (files ws)"
    by (rule set_files_find_potential_duplicates)
next
  fix eng' r
  assume "scan_and_hash e sched eng = (Inr (), eng')" "r \<in> set (files (workspace eng'))"
    "path r \<in> hashed_paths e (directories eng)"
  then have res: "md5 r = None \<and> sha1 r = None \<and> status r = ''present''"
    by (rule scan_and_hash_resets)
  from res show "md5 r = None" by simp
  from res show "sha1 r = None" by simp
  from res show "status r = ''present''" by simp
qed

theorem one_record_per_path_whole_row_upsert_witness:
  "distinct (map path (files (fold apply_op
      [Op_add_file ''/A/f1'' 3 100 (Some ''x:f'') (Some ''m:foo'') None ''present'',
       Op_add_file ''/A/f1'' 3 100 (Some ''x:f'') None None ''present'']
      (create_workspace ''/w/demo.dedupe'')))) \<and>
   filter (\<lambda>r. path r = ''/A/f2'')
     (files (add_file (demo_store [demo_row ''/A/f2'' (Some ''x:f'') (Some ''m:foo'')])
        ''/A/f1'' 3 100 (Some ''x:f'') None None ''present'')) =
     [demo_row ''/A/f2'' (Some ''x:f'') (Some ''m:foo'')] \<and>
   set (files (fst (find_potential_duplicates demo_env
        (demo_store [demo_row ''/A/f2'' (Some ''x:f'') (Some ''m:foo'')])))) =
     {demo_row ''/A/f2'' (Some ''x:f'') (Some ''m:foo'')} \<and>
   md5 (demo_row ''/A/f1'' (Some ''x:f'') None) = None"
proof -
  note inst = one_record_per_path_whole_row_upsert
    [of "[Op_add_file ''/A/f1'' 3 100 (Some ''x:f'') (Some ''m:foo'') None ''present'',
          Op_add_file ''/A/f1'' 3 100 (Some ''x:f'') None None ''present'']"
        "''/w/demo.dedupe''" "''/A/f1''"
        "demo_store [demo_row ''/A/f2'' (Some ''x:f'') (Some ''m:foo'')]"
        3 100 "Some ''x:f''" None None "''present''"
        "demo_env" "([], [])"
        "demo_engine
          [demo_row ''/A/f3'' (Some ''x:b'') None,
           demo_row ''/A/f1'' (Some ''x:f'') (Some ''m:foo''),
           demo_row ''/A/f2'' (Some ''x:f'') (Some ''m:foo'')] [''/A'']"]
  have c1: "distinct (map path (files (fold apply_op
      [Op_add_file ''/A/f1'' 3 100 (Some ''x:f'') (Some ''m:foo'') None ''present'',
       Op_add_file ''/A/f1'' 3 100 (Some ''x:f'') None None ''present'']
      (create_workspace ''/w/demo.dedupe''))))"
    using inst by (elim conjE)
  have neq: "''/A/f2'' \<noteq> ''/A/f1''"
    by simp
  from inst have others: "\<forall>q. q \<noteq> ''/A/f1'' \<longrightarrow>
      filter (\<lambda>r. path r = q)
        (files (add_file (demo_store [demo_row ''/A/f2'' (Some ''x:f'') (Some ''m:foo'')])
           ''/A/f1'' 3 100 (Some ''x:f'') None None ''present'')) =
      filter (\<lambda>r. path r = q)
        (files (demo_store [demo_row ''/A/f2'' (Some ''x:f'') (Some ''m:foo'')]))"
    by (elim conjE)
  from others [THEN spec, THEN mp, OF neq]
  have c2: "filter (\<lambda>r. path r = ''/A/f2'')
     (files (add_file (demo_store [demo_row ''/A/f2'' (Some ''x:f'') (Some ''m:foo'')])
        ''/A/f1'' 3 100 (Some ''x:f'') None None ''present'')) =
     [demo_row ''/A/f2'' (Some ''x:f'') (Some ''m:foo'')]"
    by (simp add: demo_store_def demo_row_def)
  have dist: "distinct (map path (files (demo_store [demo_row ''/A/f2'' (Some ''x:f'') (Some ''m:foo'')])))"
    by (simp add: demo_store_def)
  from inst have filled: "distinct (map path (files (demo_store [demo_row ''/A/f2'' (Some ''x:f'') (Some ''m:foo'')]))) \<longrightarrow>
      set (files (fst (find_potential_duplicates demo_env
        (demo_store [demo_row ''/A/f2'' (Some ''x:f'') (Some ''m:foo'')])))) =
      xxhash_filled demo_env ` set (files (demo_store [demo_row ''/A/f2'' (Some ''x:f'') (Some ''m:foo'')]))"
    by (elim conjE)
  from filled [THEN mp, OF dist]
  have c3: "set (files (fst (find_potential_duplicates demo_env
        (demo_store [demo_row ''/A/f2'' (Some ''x:f'') (Some ''m:foo'')])))) =
     {demo_row ''/A/f2'' (Some ''x:f'') (Some ''m:foo'')}"
    by (simp add: demo_store_def xxhash_filled_def demo_row_def truthy_def)
  have mem: "demo_row ''/A/f1'' (Some ''x:f'') None \<in> set (files (workspace (demo_engine
        [demo_row ''/A/f1'' (Some ''x:f'') None, demo_row ''/A/f2'' (Some ''x:f'') None,
         demo_row ''/A/f3'' (Some ''x:b'') None] [''/A''])))"
    by (simp add: demo_engine_def demo_store_def)
  have hashed: "path (demo_row ''/A/f1'' (Some ''x:f'') None) \<in> hashed_paths demo_env (directories (demo_engine
          [demo_row ''/A/f3'' (Some ''x:b'') None,
           demo_row ''/A/f1'' (Some ''x:f'') (Some ''m:foo''),
           demo_row ''/A/f2'' (Some ''x:f'') (Some ''m:foo'')] [''/A'']))"
    by (simp add: hashed_paths_def demo_engine_def scan_directories_def
        demo_env_def [THEN arg_cong, of walk] demo_walk_def demo_row_def
        demo_compute_xxhash demo_disk_def truthy_def)
  from inst have resets: "\<forall>eng'. scan_and_hash demo_env ([], []) (demo_engine
          [demo_row ''/A/f3'' (Some ''x:b'') None,
           demo_row ''/A/f1'' (Some ''x:f'') (Some ''m:foo''),
           demo_row ''/A/f2'' (Some ''x:f'') (Some ''m:foo'')] [''/A'']) = (Inr (), eng') \<longrightarrow>
      (\<forall>r\<in>set (files (workspace eng')).
         path r \<in> hashed_paths demo_env (directories (demo_engine
          [demo_row ''/A/f3'' (Some ''x:b'') None,
           demo_row ''/A/f1'' (Some ''x:f'') (Some ''m:foo''),
           demo_row ''/A/f2'' (Some ''x:f'') (Some ''m:foo'')] [''/A''])) \<longrightarrow>
           md5 r = None \<and> sha1 r = None \<and> status r = ''present'')"
    by (elim conjE)
  from resets [THEN spec, THEN mp, OF demo_rescan, THEN bspec, OF mem, THEN mp, OF hashed]
  have c4: "md5 (demo_row ''/A/f1'' (Some ''x:f'') None) = None"
    by (rule conjunct1)
  from c1 c2 c3 c4 show ?thesis
    by (intro conjI)
qed

section \<open>A rescan does not clear the table\<close>

lemma demo_scan_stale:
  "scan_and_hash demo_env ([], []) (demo_engine [demo_row ''/A/old'' (Some ''x:o'') None] [''/A'']) =
     (Inr (), demo_engine
        [demo_row ''/A/old'' (Some ''x:o'') None,
         demo_row ''/A/f1'' (Some ''x:f'') None, demo_row ''/A/f2'' (Some ''x:f'') None,
         demo_row ''/A/f3'' (Some ''x:b'') None] [''/A''])"
  by (simp add: scan_and_hash_def demo_engine_def demo_store_def create_workspace_def
      scan_directories_def demo_env_def [THEN arg_cong, of walk] demo_walk_def
      process_files_parallel_def large_file_threshold_def file_dict_of_def
      demo_compute_xxhash demo_disk_def add_file_def demo_row_def)

lemma demo_discovered:
  "discovered_paths demo_env [''/A''] = {''/A/f1'', ''/A/f2'', ''/A/f3''}"
  by (auto simp: discovered_paths_def scan_directories_def demo_env_def demo_walk_def)

text \<open>
  C7, as stated, fails: scan_and_hash never calls clear_files. A record of a path that
  the scan does not discover is still in the table after a rescan.
\<close>

theorem rescan_keeps_stale_record:
  "scan_and_hash demo_env ([], []) (demo_engine [demo_row ''/A/old'' (Some ''x:o'') None] [''/A'']) =
     (Inr (), demo_engine
        [demo_row ''/A/old'' (Some ''x:o'') None,
         demo_row ''/A/f1'' (Some ''x:f'') None, demo_row ''/A/f2'' (Some ''x:f'') None,
         demo_row ''/A/f3'' (Some ''x:b'') None] [''/A'']) \<and>
   ''/A/old'' \<notin> discovered_paths demo_env [''/A''] \<and>
   demo_row ''/A/old'' (Some ''x:o'') None \<in> set (files (workspace (demo_engine
        [demo_row ''/A/old'' (Some ''x:o'') None,
         demo_row ''/A/f1'' (Some ''x:f'') None, demo_row ''/A/f2'' (Some ''x:f'') None,
         demo_row ''/A/f3'' (Some ''x:b'') None] [''/A''])))"
  by (simp add: demo_scan_stale demo_discovered) (simp add: demo_engine_def demo_store_def)

lemma files_nonempty_hash_map_loop:
  "files ws \<noteq> [] \<Longrightarrow> files (fst (hash_map_loop e fs ws hm)) \<noteq> []"
  by (induction fs arbitrary: ws hm) (simp_all add: Let_def files_add_file)

lemma files_nonempty_md5_map_loop:
  "files ws \<noteq> [] \<Longrightarrow> files (fst (md5_map_loop e fs ws seen m)) \<noteq> []"
  by (induction fs arbitrary: ws seen m) (simp_all add: Let_def files_add_file)

lemma files_nonempty_confirm_loop:
  "files ws \<noteq> [] \<Longrightarrow> files (fst (confirm_loop e gs ws gs' c)) \<noteq> []"
proof (induction gs arbitrary: ws gs' c)
  case Nil
  then show ?case by simp
next
  case (Cons g gs)
  obtain ws1 g' m where loop: "md5_map_loop e g ws [] [] = (ws1, g', m)"
    by (cases "md5_map_loop e g ws [] []") auto
  from files_nonempty_md5_map_loop [OF Cons.prems, of e g "[]" "[]"] loop
  have "files ws1 \<noteq> []"
    by simp
  from Cons.IH [OF this] show ?case
    by (simp add: loop)
qed

lemma files_nonempty_store_results:
  "files ws \<noteq> [] \<Longrightarrow> files (store_results fd rs ws) \<noteq> []"
  by (induction fd rs ws rule: store_results.induct)
     (simp_all add: files_add_file split: option.splits)

lemma files_nonempty_apply_op:
  assumes "files ws \<noteq> []" and "op \<noteq> Op_clear_files"
  shows "files (apply_op op ws) \<noteq> []"
proof (cases op)
  case (Op_add_file p sz mt xx m5 s1 st)
  then show ?thesis
    by (simp add: files_add_file)
next
  case Op_clear_files
  with assms(2) show ?thesis
    by simp
next
  case (Op_save_directories e dirs)
  with assms(1) show ?thesis
    by (simp add: files_save_directories)
next
  case (Op_update_workspace_metadata name)
  with assms(1) show ?thesis
    by (simp add: files_update_workspace_metadata)
next
  case (Op_scan_and_hash e sched dirs)
  with assms(1) show ?thesis
    by (simp add: scan_and_hash_def Let_def files_nonempty_store_results)
next
  case (Op_find_potential_duplicates e)
  with assms(1) show ?thesis
    by (simp add: fst_find_potential_duplicates files_nonempty_hash_map_loop)
next
  case (Op_confirm_duplicates e gs)
  with assms(1) show ?thesis
    by (simp add: confirm_duplicates_def files_nonempty_confirm_loop)
qed

text \<open>
  C7, amended. scan_and_hash does not clear the table. It upserts a record for every
  discovered path whose fingerprint it computed: after the scan that path has exactly one
  record, the row scan_and_hash builds for it. Every record of a path that it did not
  hash, a path that the scan did not discover among them, stays as it was, in its place.
  No operation but clear_files turns a table with records into an empty one, and
  clear_files always does; a scan_and_hash that runs on a cleared table leaves exactly
  the records of the discovered paths it hashed.
\<close>

theorem scan_and_hash_keeps_other_records:
  assumes "scan_and_hash e sched eng = (Inr (), eng')"
  shows "(\<forall>p\<in>hashed_paths e (directories eng).
            filter (\<lambda>r. path r = p) (files (workspace eng')) =
              [scanned_row e (file_dict_of (scan_directories e (directories eng))) p]) \<and>
         filter (\<lambda>r. path r \<notin> hashed_paths e (directories eng)) (files (workspace eng')) =
           filter (\<lambda>r. path r \<notin> hashed_paths e (directories eng)) (files (workspace eng)) \<and>
         hashed_paths e (directories eng) \<subseteq> discovered_paths e (directories eng) \<and>
         (\<forall>op ws. files ws \<noteq> [] \<and> files (apply_op op ws) = [] \<longrightarrow> op = Op_clear_files) \<and>
         (\<forall>ws. files (apply_op Op_clear_files ws) = []) \<and>
         set (files (workspace (snd (scan_and_hash e sched
                 (eng\<lparr>workspace := clear_files (workspace eng)\<rparr>))))) =
           scanned_row e (file_dict_of (scan_directories e (directories eng))) `
             hashed_paths e (directories eng)"
proof -
  have dirs: "directories eng \<noteq> []"
    using assms by (auto simp: scan_and_hash_def split: if_splits)
  let ?H = "hashed_paths e (directories eng)"
  let ?row = "scanned_row e (file_dict_of (scan_directories e (directories eng)))"
  let ?order = "remdups (map fst (process_files_parallel sched
      (scan_directories e (directories eng)) (\<lambda>p. Returned (compute_xxhash e p))))"
  let ?old = "filter (\<lambda>r. path r \<notin> ?H) (files (workspace eng))"
  have order: "set ?order = ?H"
    by (rule set_hashed_order)
  have files': "files (workspace eng') = ?old @ map ?row ?order"
    using assms scan_and_hash_files [OF dirs, of e sched] by auto
  have upsert: "filter (\<lambda>r. path r = p) (files (workspace eng')) = [?row p]" if p: "p \<in> ?H" for p
  proof -
    have "filter (\<lambda>r. path r = p) ?old = []"
      using p by (auto simp: filter_empty_conv)
    moreover have "filter (\<lambda>r. path r = p) (map ?row ?order) = [?row p]"
      using p order by (intro filter_path_scanned_rows) simp_all
    ultimately show ?thesis
      unfolding files' filter_append by simp
  qed
  have "filter (\<lambda>r. path r \<notin> ?H) (map ?row ?order) = []"
    using order by (intro filter_unhashed_scanned_rows) simp
  then have kept: "filter (\<lambda>r. path r \<notin> ?H) (files (workspace eng')) = ?old"
    unfolding files' filter_append by simp
  have only_clear: "op = Op_clear_files" if "files ws \<noteq> [] \<and> files (apply_op op ws) = []"
    for op ws
    using that files_nonempty_apply_op [of ws op] by blast
  have clears: "files (apply_op Op_clear_files ws) = []" for ws
    by (simp add: clear_files_def)
  let ?eng0 = "eng\<lparr>workspace := clear_files (workspace eng)\<rparr>"
  have dirs0: "directories ?eng0 \<noteq> []"
    using dirs by simp
  have "files (workspace (snd (scan_and_hash e sched ?eng0))) = map ?row ?order"
    using scan_and_hash_files [OF dirs0, of e sched] by (simp add: clear_files_def)
  then have fresh: "set (files (workspace (snd (scan_and_hash e sched ?eng0)))) = ?row ` ?H"
    using order by simp
  from upsert kept hashed_subset_discovered [of e "directories eng"] only_clear clears fresh
  show ?thesis
    by (intro conjI ballI allI impI)
qed

lemma demo_hashed: "hashed_paths demo_env [''/A''] = {''/A/f1'', ''/A/f2'', ''/A/f3''}"
  by (auto simp: hashed_paths_def scan_directories_def demo_env_def [THEN arg_cong, of walk]
      demo_walk_def demo_compute_xxhash demo_disk_def truthy_def)

theorem scan_and_hash_keeps_other_records_witness:
  "scan_and_hash demo_env ([], []) (demo_engine [demo_row ''/A/old'' (Some ''x:o'') None] [''/A'']) =
     (Inr (), demo_engine
        [demo_row ''/A/old'' (Some ''x:o'') None,
         demo_row ''/A/f1'' (Some ''x:f'') None, demo_row ''/A/f2'' (Some ''x:f'') None,
         demo_row ''/A/f3'' (Some ''x:b'') None] [''/A'']) \<and>
   ''/A/f1'' \<in> hashed_paths demo_env [''/A''] \<and>
   filter (\<lambda>r. path r = ''/A/f1'') (files (workspace (demo_engine
        [demo_row ''/A/old'' (Some ''x:o'') None,
         demo_row ''/A/f1'' (Some ''x:f'') None, demo_row ''/A/f2'' (Some ''x:f'') None,
         demo_row ''/A/f3'' (Some ''x:b'') None] [''/A'']))) =
     [scanned_row demo_env (file_dict_of (scan_directories demo_env [''/A''])) ''/A/f1''] \<and>
   scanned_row demo_env (file_dict_of (scan_directories demo_env [''/A''])) ''/A/f1'' =
     demo_row ''/A/f1'' (Some ''x:f'') None \<and>
   filter (\<lambda>r. path r \<notin> hashed_paths demo_env [''/A'']) (files (workspace (demo_engine
        [demo_row ''/A/old'' (Some ''x:o'') None,
         demo_row ''/A/f1'' (Some ''x:f'') None, demo_row ''/A/f2'' (Some ''x:f'') None,
         demo_row ''/A/f3'' (Some ''x:b'') None] [''/A'']))) =
     [demo_row ''/A/old'' (Some ''x:o'') None]"
proof -
  note inst = scan_and_hash_keeps_other_records [OF demo_scan_stale]
  have dirs: "directories (demo_engine [demo_row ''/A/old'' (Some ''x:o'') None] [''/A'']) = [''/A'']"
    by (simp add: demo_engine_def)
  have f1: "''/A/f1'' \<in> hashed_paths demo_env [''/A'']"
    by (simp add: demo_hashed)
  from inst have "\<forall>p\<in>hashed_paths demo_env [''/A''].
      filter (\<lambda>r. path r = p) (files (workspace (demo_engine
        [demo_row ''/A/old'' (Some ''x:o'') None,
         demo_row ''/A/f1'' (Some ''x:f'') None, demo_row ''/A/f2'' (Some ''x:f'') None,
         demo_row ''/A/f3'' (Some ''x:b'') None] [''/A'']))) =
      [scanned_row demo_env (file_dict_of (scan_directories demo_env [''/A''])) p]"
    unfolding dirs by (elim conjE)
  from this [THEN bspec, OF f1]
  have c1: "filter (\<lambda>r. path r = ''/A/f1'') (files (workspace (demo_engine
        [demo_row ''/A/old'' (Some ''x:o'') None,
         demo_row ''/A/f1'' (Some ''x:f'') None, demo_row ''/A/f2'' (Some ''x:f'') None,
         demo_row ''/A/f3'' (Some ''x:b'') None] [''/A'']))) =
     [scanned_row demo_env (file_dict_of (scan_directories demo_env [''/A''])) ''/A/f1'']" .
  have c2: "scanned_row demo_env (file_dict_of (scan_directories demo_env [''/A''])) ''/A/f1'' =
     demo_row ''/A/f1'' (Some ''x:f'') None"
    by (simp add: scanned_row_def file_dict_of_def scan_directories_def
        demo_env_def [THEN arg_cong, of walk] demo_walk_def demo_compute_xxhash demo_disk_def
        demo_row_def)
  from inst have "filter (\<lambda>r. path r \<notin> hashed_paths demo_env [''/A'']) (files (workspace (demo_engine
        [demo_row ''/A/old'' (Some ''x:o'') None,
         demo_row ''/A/f1'' (Some ''x:f'') None, demo_row ''/A/f2'' (Some ''x:f'') None,
         demo_row ''/A/f3'' (Some ''x:b'') None] [''/A'']))) =
      filter (\<lambda>r. path r \<notin> hashed_paths demo_env [''/A''])
        (files (workspace (demo_engine [demo_row ''/A/old'' (Some ''x:o'') None] [''/A''])))"
    unfolding dirs by (elim conjE)
  then have c3: "filter (\<lambda>r. path r \<notin> hashed_paths demo_env [''/A'']) (files (workspace (demo_engine
        [demo_row ''/A/old'' (Some ''x:o'') None,
         demo_row ''/A/f1'' (Some ''x:f'') None, demo_row ''/A/f2'' (Some ''x:f'') None,
         demo_row ''/A/f3'' (Some ''x:b'') None] [''/A'']))) =
     [demo_row ''/A/old'' (Some ''x:o'') None]"
    by (simp add: demo_engine_def demo_store_def demo_hashed demo_row_def)
  from demo_scan_stale f1 c1 c2 c3 show ?thesis
    by (intro conjI)
qed

section \<open>The directory list and its legacy copy\<close>

lemma fold_append_directories:
  "fold (\<lambda>directory w. w\<lparr>workspace_directories := workspace_directories w @ [directory]\<rparr>)
     dirs w0 = w0\<lparr>workspace_directories := workspace_directories w0 @ dirs\<rparr>"
  for w0 :: store
  by (induction dirs arbitrary: w0) simp_all

lemma save_directories_closed:
  "save_directories e ws dirs =
     ws\<lparr>workspace_directories := dirs,
        workspace_config := (workspace_config ws)(''directories'' \<mapsto> json_dumps e dirs)\<rparr>"
  by (simp add: save_directories_def Let_def fold_append_directories)

lemma config_hash_map_loop:
  "workspace_config (fst (hash_map_loop e fs ws hm)) = workspace_config ws"
  by (induction fs arbitrary: ws hm) (simp_all add: Let_def add_file_frame)

lemma config_md5_map_loop:
  "workspace_config (fst (md5_map_loop e fs ws seen m)) = workspace_config ws"
  by (induction fs arbitrary: ws seen m) (simp_all add: Let_def add_file_frame)

lemma config_confirm_loop:
  "workspace_config (fst (confirm_loop e gs ws gs' c)) = workspace_config ws"
proof (induction gs arbitrary: ws gs' c)
  case Nil
  then show ?case by simp
next
  case (Cons g gs)
  obtain ws1 g' m where loop: "md5_map_loop e g ws [] [] = (ws1, g', m)"
    by (cases "md5_map_loop e g ws [] []") auto
  from config_md5_map_loop [of e g ws "[]" "[]"] loop
  have "workspace_config ws1 = workspace_config ws"
    by simp
  with Cons.IH [of ws1] show ?case
    by (simp add: loop)
qed

lemma config_scan_and_hash:
  "workspace_config (workspace (snd (scan_and_hash e sched eng))) =
     workspace_config (workspace eng)"
  by (simp add: scan_and_hash_def Let_def store_results_frame)

lemma config_apply_op:
  "(\<And>e dirs. op \<noteq> Op_save_directories e dirs) \<Longrightarrow>
   workspace_config (apply_op op ws) = workspace_config ws"
proof (cases op)
  case (Op_add_file p sz mt xx m5 s1 st)
  then show ?thesis
    by (simp add: add_file_frame)
next
  case Op_clear_files
  then show ?thesis
    by (simp add: clear_files_def)
next
  case (Op_save_directories e dirs)
  assume "\<And>e dirs. op \<noteq> Op_save_directories e dirs"
  with Op_save_directories show ?thesis
    by simp
next
  case (Op_update_workspace_metadata name)
  then show ?thesis
    by (simp add: update_workspace_metadata_def Let_def)
next
  case (Op_scan_and_hash e sched dirs)
  then show ?thesis
    using config_scan_and_hash [of e sched "\<lparr>workspace = ws, directories = dirs\<rparr>"] by simp
next
  case (Op_find_potential_duplicates e)
  then show ?thesis
    by (simp add: fst_find_potential_duplicates config_hash_map_loop)
next
  case (Op_confirm_duplicates e gs)
  then show ?thesis
    by (simp add: confirm_duplicates_def config_confirm_loop)
qed

lemma load_directories_structured:
  "workspace_directories ws \<noteq> [] \<Longrightarrow>
   load_directories e (ws\<lparr>workspace_config := cfg\<rparr>) = Inr (workspace_directories ws)"
  by (simp add: load_directories_def Let_def)

lemma load_directories_legacy:
  "workspace_directories ws = [] \<Longrightarrow>
   load_directories e ws =
     (case workspace_config ws ''directories'' of
        None \<Rightarrow> Inr []
      | Some v \<Rightarrow> (case json_loads e v of None \<Rightarrow> Inl JSONDecodeError | Some ds \<Rightarrow> Inr ds))"
  by (simp add: load_directories_def Let_def split: option.splits)

text \<open>
  C6, as stated, fails in its last part: save_directories writes the legacy value every
  time it is called. A second call replaces the text that the first call stored under the
  key \<open>directories\<close> of \<open>workspace_config\<close>.
\<close>

theorem save_directories_rewrites_legacy_blob:
  "workspace_config (save_directories demo_env (demo_store []) [''/A'']) ''directories'' =
     Some ''/A;'' \<and>
   workspace_config
     (save_directories demo_env (save_directories demo_env (demo_store []) [''/A'']) [''/B''])
     ''directories'' = Some ''/B;''"
  by (simp add: save_directories_closed demo_env_def demo_dumps_def)

text \<open>
  C6, amended. save_directories replaces the rows of \<open>workspace_directories\<close> by the
  list it is given and also stores the JSON text of the same list under the key
  \<open>directories\<close> of \<open>workspace_config\<close>; it is the only operation that writes
  \<open>workspace_config\<close>. load_directories returns the structured rows whenever there
  is one, whatever \<open>workspace_config\<close> holds, and reads the legacy value only when
  there is none.
\<close>

theorem save_directories_writes_both:
  "workspace_directories (save_directories e ws dirs) = dirs \<and>
   workspace_config (save_directories e ws dirs) =
     (workspace_config ws)(''directories'' \<mapsto> json_dumps e dirs) \<and>
   (workspace_directories ws \<noteq> [] \<longrightarrow>
      (\<forall>cfg. load_directories e (ws\<lparr>workspace_config := cfg\<rparr>) = Inr (workspace_directories ws))) \<and>
   (workspace_directories ws = [] \<longrightarrow>
      load_directories e ws =
        (case workspace_config ws ''directories'' of
           None \<Rightarrow> Inr []
         | Some v \<Rightarrow> (case json_loads e v of None \<Rightarrow> Inl JSONDecodeError | Some ds \<Rightarrow> Inr ds))) \<and>
   ((\<forall>e' dirs'. op \<noteq> Op_save_directories e' dirs') \<longrightarrow>
      workspace_config (apply_op op ws) = workspace_config ws)"
proof (intro conjI impI allI)
  show "workspace_directories (save_directories e ws dirs) = dirs"
    by (simp add: save_directories_closed)
next
  show "workspace_config (save_directories e ws dirs) =
     (workspace_config ws)(''directories'' \<mapsto> json_dumps e dirs)"
    by (simp add: save_directories_closed)
next
  fix cfg assume "workspace_directories ws \<noteq> []"
  then show "load_directories e (ws\<lparr>workspace_config := cfg\<rparr>) = Inr (workspace_directories ws)"
    by (rule load_directories_structured)
next
  assume "workspace_directories ws = []"
  then show "load_directories e ws =
        (case workspace_config ws ''directories'' of
           None \<Rightarrow> Inr []
         | Some v \<Rightarrow> (case json_loads e v of None \<Rightarrow> Inl JSONDecodeError | Some ds \<Rightarrow> Inr ds))"
    by (rule load_directories_legacy)
next
  assume "\<forall>e' dirs'. op \<noteq> Op_save_directories e' dirs'"
  then show "workspace_config (apply_op op ws) = workspace_config ws"
    by (intro config_apply_op) simp
qed

theorem save_directories_writes_both_witness:
  "workspace_directories (save_directories demo_env (demo_store []) [''/A'']) = [''/A''] \<and>
   load_directories demo_env
     ((save_directories demo_env (demo_store []) [''/A''])\<lparr>workspace_config := Map.empty\<rparr>) =
     Inr [''/A''] \<and>
   load_directories demo_env
     ((demo_store [])\<lparr>workspace_config := [''directories'' \<mapsto> ''/A;'']\<rparr>) = Inr [''/A''] \<and>
   workspace_config (apply_op Op_clear_files (save_directories demo_env (demo_store []) [''/A''])) =
     workspace_config (save_directories demo_env (demo_store []) [''/A''])"
proof -
  note inst1 = save_directories_writes_both
    [of demo_env "demo_store []" "[''/A'']" Op_clear_files]
  note inst2 = save_directories_writes_both
    [of demo_env "save_directories demo_env (demo_store []) [''/A'']" "[]" Op_clear_files]
  note inst3 = save_directories_writes_both
    [of demo_env "(demo_store [])\<lparr>workspace_config := [''directories'' \<mapsto> ''/A;'']\<rparr>" "[]"
        Op_clear_files]
  from inst1 have c1: "workspace_directories (save_directories demo_env (demo_store []) [''/A'']) = [''/A'']"
    by (rule conjunct1)
  have ne: "workspace_directories (save_directories demo_env (demo_store []) [''/A'']) \<noteq> []"
    by (simp add: c1)
  from inst2 have "workspace_directories (save_directories demo_env (demo_store []) [''/A'']) \<noteq> [] \<longrightarrow>
      (\<forall>cfg. load_directories demo_env
         ((save_directories demo_env (demo_store []) [''/A''])\<lparr>workspace_config := cfg\<rparr>) =
         Inr (workspace_directories (save_directories demo_env (demo_store []) [''/A''])))"
    by (elim conjE)
  from this [THEN mp, OF ne, THEN spec, of Map.empty]
  have c2: "load_directories demo_env
     ((save_directories demo_env (demo_store []) [''/A''])\<lparr>workspace_config := Map.empty\<rparr>) =
     Inr [''/A'']"
    by (simp add: c1)
  have emp: "workspace_directories ((demo_store [])\<lparr>workspace_config := [''directories'' \<mapsto> ''/A;'']\<rparr>) = []"
    by (simp add: demo_store_def create_workspace_def)
  from inst3 have "workspace_directories ((demo_store [])\<lparr>workspace_config := [''directories'' \<mapsto> ''/A;'']\<rparr>) = [] \<longrightarrow>
      load_directories demo_env ((demo_store [])\<lparr>workspace_config := [''directories'' \<mapsto> ''/A;'']\<rparr>) =
        (case workspace_config ((demo_store [])\<lparr>workspace_config := [''directories'' \<mapsto> ''/A;'']\<rparr>)
                ''directories'' of
           None \<Rightarrow> Inr []
         | Some v \<Rightarrow> (case json_loads demo_env v of None \<Rightarrow> Inl JSONDecodeError | Some ds \<Rightarrow> Inr ds))"
    by (elim conjE)
  from this [THEN mp, OF emp]
  have c3: "load_directories demo_env
     ((demo_store [])\<lparr>workspace_config := [''directories'' \<mapsto> ''/A;'']\<rparr>) = Inr [''/A'']"
    by (simp add: demo_env_def demo_loads_def)
  have nosave: "\<forall>e' dirs'. Op_clear_files \<noteq> Op_save_directories e' dirs'"
    by simp
  from inst2 have "(\<forall>e' dirs'. Op_clear_files \<noteq> Op_save_directories e' dirs') \<longrightarrow>
      workspace_config (apply_op Op_clear_files (save_directories demo_env (demo_store []) [''/A''])) =
      workspace_config (save_directories demo_env (demo_store []) [''/A''])"
    by (elim conjE)
  from this [THEN mp, OF nosave] c1 c2 c3 show ?thesis
    by (intro conjI)
qed

section \<open>Properties of gui/scan_thread.py\<close>

lemma filter_loop_closed:
  "filter_loop db all_files files_to_hash =
     files_to_hash @
     filter (\<lambda>(filepath, sz, mt).
        case find (\<lambda>r. path r = filepath \<and> fsize r = sz \<and> xxhash r \<noteq> None) (files db) of
          None \<Rightarrow> True
        | Some row \<Rightarrow> modified row \<noteq> mt) all_files"
  by (induction db all_files files_to_hash rule: filter_loop.induct)
     (simp_all split: option.splits)

lemma fetchone_unique:
  assumes "distinct (map path (files db))"
  shows "(case find (\<lambda>r. path r = p \<and> fsize r = sz \<and> xxhash r \<noteq> None) (files db) of
            None \<Rightarrow> True
          | Some row \<Rightarrow> modified row \<noteq> mt) \<longleftrightarrow>
         \<not> (\<exists>r\<in>set (files db). path r = p \<and> fsize r = sz \<and> xxhash r \<noteq> None \<and> modified r = mt)"
proof (cases "find (\<lambda>r. path r = p \<and> fsize r = sz \<and> xxhash r \<noteq> None) (files db)")
  case None
  then have "\<not> (\<exists>r. r \<in> set (files db) \<and> (path r = p \<and> fsize r = sz \<and> xxhash r \<noteq> None))"
    by (simp only: find_None_iff simp_thms)
  then show ?thesis
    unfolding None option.case by blast
next
  case (Some row)
  then have "\<exists>i<length (files db). (path (files db ! i) = p \<and> fsize (files db ! i) = sz \<and>
      xxhash (files db ! i) \<noteq> None) \<and> row = files db ! i"
    by (simp only: find_Some_iff) blast
  then have row: "row \<in> set (files db)" "path row = p" "fsize row = sz" "xxhash row \<noteq> None"
    by (auto simp: in_set_conv_nth)
  from assms have inj: "inj_on path (set (files db))"
    by (simp add: distinct_map)
  have "r = row" if "r \<in> set (files db)" "path r = p" for r
    using inj that row(1,2) by (auto dest: inj_onD)
  with row show ?thesis
    unfolding Some option.case by blast
qed

text \<open>
  C3. With a connection to the workspace, and one record per path in it, the filter
  drops a discovered file (does not hash it again) exactly when the store holds a record
  with the same path, the same size, a fingerprint that is not NULL and the same
  modification time; every other file is kept for hashing. Without a connection every
  file is kept.
\<close>

theorem filter_unhashed_files_skips_exactly:
  assumes "distinct (map path (files db))"
  shows "filter_unhashed_files (Some db) all_files =
     filter (\<lambda>(filepath, sz, mt).
        \<not> (\<exists>r\<in>set (files db).
              path r = filepath \<and> fsize r = sz \<and> xxhash r \<noteq> None \<and> modified r = mt))
       all_files \<and>
     filter_unhashed_files None all_files = all_files"
proof -
  have "filter (\<lambda>(filepath, sz, mt).
        case find (\<lambda>r. path r = filepath \<and> fsize r = sz \<and> xxhash r \<noteq> None) (files db) of
          None \<Rightarrow> True
        | Some row \<Rightarrow> modified row \<noteq> mt) all_files =
      filter (\<lambda>(filepath, sz, mt).
        \<not> (\<exists>r\<in>set (files db).
              path r = filepath \<and> fsize r = sz \<and> xxhash r \<noteq> None \<and> modified r = mt))
       all_files"
    by (rule filter_cong [OF refl]) (auto simp only: fetchone_unique [OF assms] split: prod.splits)
  then show ?thesis
    by (simp add: filter_unhashed_files_def filter_loop_closed)
qed

theorem filter_unhashed_files_skips_exactly_witness:
  "distinct (map path (files (demo_store [demo_row ''/A/f1'' (Some ''x:f'') None,
      demo_row ''/A/f3'' None None]))) \<and>
   filter_unhashed_files
     (Some (demo_store [demo_row ''/A/f1'' (Some ''x:f'') None, demo_row ''/A/f3'' None None]))
     [(''/A/f1'', 3, 100), (''/A/f2'', 3, 100), (''/A/f3'', 3, 100), (''/A/f1'', 3, 101),
      (''/A/f1'', 4, 100)] =
     [(''/A/f2'', 3, 100), (''/A/f3'', 3, 100), (''/A/f1'', 3, 101), (''/A/f1'', 4, 100)]"
proof -
  have dist: "distinct (map path (files (demo_store [demo_row ''/A/f1'' (Some ''x:f'') None,
      demo_row ''/A/f3'' None None])))"
    by (simp add: demo_store_def demo_row_def)
  from filter_unhashed_files_skips_exactly [OF dist,
      of "[(''/A/f1'', 3, 100), (''/A/f2'', 3, 100), (''/A/f3'', 3, 100), (''/A/f1'', 3, 101),
           (''/A/f1'', 4, 100)]"]
  have "filter_unhashed_files
     (Some (demo_store [demo_row ''/A/f1'' (Some ''x:f'') None, demo_row ''/A/f3'' None None]))
     [(''/A/f1'', 3, 100), (''/A/f2'', 3, 100), (''/A/f3'', 3, 100), (''/A/f1'', 3, 101),
      (''/A/f1'', 4, 100)] =
     [(''/A/f2'', 3, 100), (''/A/f3'', 3, 100), (''/A/f1'', 3, 101), (''/A/f1'', 4, 100)]"
    by (simp add: demo_store_def demo_row_def)
  with dist show ?thesis
    by (rule conjI)
qed

section \<open>Unreadable files in the duplicate search\<close>

text \<open>
  C2. The claim is that a file that cannot be read is in no potential and no confirmed
  group. The deduper does not do this: it files a record under the key \<open>None\<close> when
  the hash it computes is \<open>None\<close>, so two unreadable files meet in one group. Here
  \<open>/A/gone1\<close> and \<open>/A/gone2\<close> are not on the disk. With no stored fingerprint they
  form a potential group and then a confirmed group; with equal stored fingerprints they
  form a confirmed group although neither md5 could be computed.
\<close>

theorem unreadable_files_reported_as_duplicates:
  "compute_xxhash demo_env ''/A/gone1'' = None \<and>
   compute_md5 demo_env ''/A/gone1'' = None \<and>
   compute_xxhash demo_env ''/A/gone2'' = None \<and>
   compute_md5 demo_env ''/A/gone2'' = None \<and>
   snd (find_potential_duplicates demo_env
          (demo_store [demo_row ''/A/gone1'' None None, demo_row ''/A/gone2'' None None])) =
     [[demo_row ''/A/gone1'' None None, demo_row ''/A/gone2'' None None]] \<and>
   fst (find_duplicates demo_env
          (demo_engine [demo_row ''/A/gone1'' None None, demo_row ''/A/gone2'' None None] [''/A''])) =
     [[demo_row ''/A/gone1'' None None, demo_row ''/A/gone2'' None None]] \<and>
   fst (find_duplicates demo_env
          (demo_engine [demo_row ''/A/gone1'' (Some ''x:f'') None,
                        demo_row ''/A/gone2'' (Some ''x:f'') None] [''/A''])) =
     [[demo_row ''/A/gone1'' (Some ''x:f'') None, demo_row ''/A/gone2'' (Some ''x:f'') None]]"
  by (simp add: find_duplicates_def find_potential_duplicates_def get_files_def
      confirm_duplicates_def demo_engine_def demo_store_def create_workspace_def
      demo_row_def truthy_def demo_compute_md5 demo_compute_xxhash demo_disk_def add_file_def
      Let_def)

end
